theory Spec2Isabelle
  imports Main
begin

section \<open>JavaScript string primitives\<close>

text \<open>
  Strings are lists of 8-bit characters: the model reads a string as the bytes of its
  UTF-8 encoding (the source's strings are UTF-16). A character class is the list of the
  encodings of its characters. An encoding never begins inside another character, so on
  an encoded text a class character stands at a position exactly when its encoding does.
  A string with an unpaired surrogate has no encoding and is outside the model.
\<close>

definition newline :: char where
  "newline = CHR 0x0A"

definition carriage_return :: char where
  "carriage_return = CHR 0x0D"

text \<open>The blank-line event separator \<open>'\n\n'\<close> of both decoders.\<close>

definition event_separator :: string where
  "event_separator = [newline, newline]"

text \<open>
  The white space of \<open>String.prototype.trim\<close> and of the regular expression class
  \<open>\s\<close>: U+0009 to U+000D, U+0020, U+00A0, U+1680, U+2000 to U+200A, U+2028,
  U+2029, U+202F, U+205F, U+3000 and U+FEFF.
\<close>

definition white_space :: "string list" where
  "white_space =
     [[CHR 0x09], [CHR 0x0A], [CHR 0x0B], [CHR 0x0C], [CHR 0x0D], [CHR 0x20],
      [CHR 0xC2, CHR 0xA0], [CHR 0xE1, CHR 0x9A, CHR 0x80],
      [CHR 0xE2, CHR 0x80, CHR 0x80], [CHR 0xE2, CHR 0x80, CHR 0x81],
      [CHR 0xE2, CHR 0x80, CHR 0x82], [CHR 0xE2, CHR 0x80, CHR 0x83],
      [CHR 0xE2, CHR 0x80, CHR 0x84], [CHR 0xE2, CHR 0x80, CHR 0x85],
      [CHR 0xE2, CHR 0x80, CHR 0x86], [CHR 0xE2, CHR 0x80, CHR 0x87],
      [CHR 0xE2, CHR 0x80, CHR 0x88], [CHR 0xE2, CHR 0x80, CHR 0x89],
      [CHR 0xE2, CHR 0x80, CHR 0x8A], [CHR 0xE2, CHR 0x80, CHR 0xA8],
      [CHR 0xE2, CHR 0x80, CHR 0xA9], [CHR 0xE2, CHR 0x80, CHR 0xAF],
      [CHR 0xE2, CHR 0x81, CHR 0x9F], [CHR 0xE3, CHR 0x80, CHR 0x80],
      [CHR 0xEF, CHR 0xBB, CHR 0xBF]]"

text \<open>
  The line terminators, which the regular expression \<open>.\<close> does not match: U+000A,
  U+000D, U+2028 and U+2029.
\<close>

definition line_terminators :: "string list" where
  "line_terminators =
     [[CHR 0x0A], [CHR 0x0D], [CHR 0xE2, CHR 0x80, CHR 0xA8], [CHR 0xE2, CHR 0x80, CHR 0xA9]]"

text \<open>
  The number of bytes of the character of the class at the head of \<open>s\<close>, 0 when there
  is none; and the run of characters of the class at the head of \<open>s\<close>.
\<close>

definition char_len :: "string list \<Rightarrow> string \<Rightarrow> nat" where
  "char_len cls s =
     (case filter (\<lambda>w. take (length w) s = w) cls of [] \<Rightarrow> 0 | w # ws \<Rightarrow> length w)"

function class_run :: "string list \<Rightarrow> string \<Rightarrow> string list" where
  "class_run cls s =
     (if char_len cls s = 0 then []
      else take (char_len cls s) s # class_run cls (drop (char_len cls s) s))"
  by pat_completeness auto
termination
proof (relation "measure (\<lambda>(cls, s). length s)")
  show "wf (measure (\<lambda>(cls, s). length s))" by simp
next
  fix cls :: "string list" and s :: string
  assume n: "char_len cls s \<noteq> 0"
  have "s \<noteq> []"
  proof
    assume "s = []"
    then have "filter (\<lambda>w. take (length w) s = w) cls = filter (\<lambda>w. w = []) cls"
      by (auto intro: filter_cong)
    moreover have "\<forall>w\<in>set (filter (\<lambda>w. w = []) cls). w = []" by simp
    ultimately have "char_len cls s = 0"
      by (cases "filter (\<lambda>w. w = []) cls") (auto simp: char_len_def)
    with n show False by simp
  qed
  with n show "((cls, drop (char_len cls s) s), (cls, s)) \<in> measure (\<lambda>(cls, s). length s)"
    by simp
qed

declare class_run.simps [simp del]

text \<open>\<open>s\<close> without the run of class characters at its head.\<close>

definition strip_class :: "string list \<Rightarrow> string \<Rightarrow> string" where
  "strip_class cls s = drop (length (concat (class_run cls s))) s"

text \<open>
  \<open>String.prototype.trim\<close>: the white space at the head goes, then the white space at
  the end, read on the reversed string with the reversed encodings.
\<close>

definition trim :: "string \<Rightarrow> string" where
  "trim s = rev (strip_class (map rev white_space) (rev (strip_class white_space s)))"

text \<open>\<open>s.includes(sub)\<close>: \<open>sub\<close> occurs in \<open>s\<close> at some position.\<close>

fun str_includes :: "string \<Rightarrow> string \<Rightarrow> bool" where
  "str_includes [] sub = (sub = [])"
| "str_includes (c # cs) sub = (take (length sub) (c # cs) = sub \<or> str_includes cs sub)"

text \<open>
  \<open>s.split(sep)\<close> for a non-empty separator: the pieces between the leftmost,
  non-overlapping occurrences of \<open>sep\<close>; always at least one piece.
\<close>

function js_split :: "string \<Rightarrow> string \<Rightarrow> string list" where
  "js_split sep [] = [[]]"
| "js_split sep (c # cs) =
     (if sep \<noteq> [] \<and> take (length sep) (c # cs) = sep
      then [] # js_split sep (drop (length sep) (c # cs))
      else (case js_split sep cs of
              [] \<Rightarrow> [[c]]
            | w # ws \<Rightarrow> (c # w) # ws))"
  by pat_completeness auto
termination
  by (relation "measure (\<lambda>(sep, s). length s)") auto

text \<open>\<open>a || b\<close> on an optional string: an absent or empty \<open>a\<close> is falsy.\<close>

fun or_else :: "string option \<Rightarrow> string \<Rightarrow> string" where
  "or_else None d = d"
| "or_else (Some s) d = (if s = [] then d else s)"

text \<open>The longest prefix of \<open>s\<close> that holds no line terminator.\<close>

fun line_of :: "string \<Rightarrow> string" where
  "line_of [] = []"
| "line_of (c # cs) = (if char_len line_terminators (c # cs) = 0 then c # line_of cs else [])"

text \<open>
  \<open>event.match(/data:\s*(.+)/)\<close>, returning the capture group. After \<open>data:\<close> the
  greedy \<open>\s*\<close> takes all white space; \<open>(.+)\<close> then takes the characters up to the next
  line terminator. When nothing is left for \<open>(.+)\<close>, \<open>\s*\<close> backs off to the last
  white-space character that is not a line terminator, which becomes the capture. When
  that fails too, the match is retried at the next position.
\<close>

definition capture_after :: "string \<Rightarrow> string option" where
  "capture_after rest =
     (let cap = line_of (strip_class white_space rest)
      in if cap \<noteq> [] then Some cap
         else (case filter (\<lambda>w. w \<notin> set line_terminators) (class_run white_space rest) of
                 [] \<Rightarrow> None
               | w # ws \<Rightarrow> Some (last (w # ws))))"

fun data_match :: "string \<Rightarrow> string option" where
  "data_match [] = None"
| "data_match (c # cs) =
     (if take 5 (c # cs) = ''data:''
      then (case capture_after (drop 5 (c # cs)) of
              Some cap \<Rightarrow> Some cap
            | None \<Rightarrow> data_match cs)
      else data_match cs)"

text \<open>
  \<open>chunk.toString()\<close> on a \<open>Buffer\<close>: UTF-8 decoding, the decoded text written again as
  its UTF-8 bytes. A byte sequence that is not the encoding of a character, or is cut
  short by the end of the chunk, becomes the replacement character U+FFFD. \<open>needed\<close>
  counts the continuation bytes still expected, \<open>lo\<close> and \<open>up\<close> bound the next one, and
  \<open>pend\<close> holds the bytes of the character being read.
\<close>

definition replacement :: string where
  "replacement = [CHR 0xEF, CHR 0xBF, CHR 0xBD]"

function utf8 :: "nat \<Rightarrow> nat \<Rightarrow> nat \<Rightarrow> string \<Rightarrow> string \<Rightarrow> string" where
  "utf8 needed lo up pend [] = (if needed = 0 then [] else replacement)"
| "utf8 needed lo up pend (b # bs) =
     (let n = (of_char b :: nat) in
      if needed = 0 then
        (if n < 0x80 then b # utf8 0 0x80 0xBF [] bs
         else if 0xC2 \<le> n \<and> n \<le> 0xDF then utf8 1 0x80 0xBF [b] bs
         else if 0xE0 \<le> n \<and> n \<le> 0xEF
         then utf8 2 (if n = 0xE0 then 0xA0 else 0x80) (if n = 0xED then 0x9F else 0xBF) [b] bs
         else if 0xF0 \<le> n \<and> n \<le> 0xF4
         then utf8 3 (if n = 0xF0 then 0x90 else 0x80) (if n = 0xF4 then 0x8F else 0xBF) [b] bs
         else replacement @ utf8 0 0x80 0xBF [] bs)
      else if n < lo \<or> up < n then replacement @ utf8 0 0x80 0xBF [] (b # bs)
      else if needed = 1 then pend @ [b] @ utf8 0 0x80 0xBF [] bs
      else utf8 (needed - 1) 0x80 0xBF (pend @ [b]) bs)"
  by pat_completeness auto
termination
  by (relation "measure (\<lambda>(needed, lo, up, pend, bs).
                           2 * length bs + (if needed = 0 then 0 else 1))")
     auto

definition toString :: "string \<Rightarrow> string" where
  "toString chunk = utf8 0 0x80 0xBF [] chunk"

section \<open>Data model\<close>

text \<open>A cell of a result row: \<open>null\<close>/\<open>undefined\<close>, or a string.\<close>

datatype cell = CNull | CStr string

text \<open>
  A row-map: an object whose prototype is \<open>Object.prototype\<close>, as the list of its own
  keys, in enumeration order, with their values.
\<close>

type_synonym row = "(string \<times> cell) list"

text \<open>Structured values the pipeline passes through without reading them.\<close>

datatype json =
    JNull
  | JBool bool
  | JNum int
  | JStr string
  | JArr "json list"
  | JObj "(string \<times> json) list"

text \<open>
  One entry of \<open>content.tool_results.content\<close>: \<open>type === 'json'\<close> with a truthy
  \<open>json\<close> (an array of rows, or one object), \<open>type === 'text/csv'\<close> with its \<open>text\<close>,
  or anything else.
\<close>

datatype json_payload = JsonArray "row list" | JsonObject row

datatype result_item =
    JsonResult json_payload
  | CsvResult "string option"
  | OtherResult

text \<open>
  \<open>content.thinking\<close>: absent, a string, or an object with optional \<open>text\<close>,
  \<open>content\<close> and \<open>message\<close> fields and its \<open>JSON.stringify\<close> rendering.
\<close>

datatype thinking =
    NoThinking
  | ThinkingStr string
  | ThinkingObj "string option" "string option" "string option" string

text \<open>
  A content item, by its \<open>type\<close> field: \<open>text\<close> (with \<open>content.text\<close>),
  \<open>tool_use\<close> (with \<open>content.tool_use.name\<close> and the tool's input), \<open>tool_results\<close>
  (with \<open>content.tool_results.content\<close>), \<open>chart\<close> (with
  \<open>content.chart.chart_spec\<close>), \<open>thinking\<close>, or any other type.
\<close>

datatype content_item =
    Text "string option"
  | ToolUse "string option" json
  | ToolResults "result_item list option"
  | Chart "string option"
  | Thinking thinking
  | Unknown string

text \<open>
  What \<open>JSON.parse\<close> returns for the payload of a \<open>message.delta\<close> frame:
  \<open>deltaData.id\<close>, \<open>deltaData.object\<close> and \<open>deltaData.delta.content\<close> (absent when
  \<open>delta\<close> or its \<open>content\<close> is). The content, when present, is an array of
  objects, as the agent sends it.
\<close>

record delta_data =
  dd_id :: "string option"
  dd_object :: "string option"
  dd_content :: "content_item list option"

text \<open>\<open>individualDelta\<close>, without its timestamp.\<close>

record delta =
  d_index :: nat
  d_content :: "content_item list"
  d_id :: "string option"
  d_object :: "string option"

text \<open>A call of the observer \<open>onDelta\<close>: with a delta, or with the completion record.\<close>

datatype notification = DeltaNote delta | Completion nat

definition individualDelta :: "nat \<Rightarrow> delta_data \<Rightarrow> delta" where
  "individualDelta i dd =
     \<lparr>d_index = i,
      d_content = (case dd_content dd of None \<Rightarrow> [] | Some items \<Rightarrow> items),
      d_id = dd_id dd,
      d_object = dd_object dd\<rparr>"

text \<open>The inner \<open>if (content.thinking)\<close> and the text extracted under it.\<close>

fun thinking_present :: "thinking \<Rightarrow> bool" where
  "thinking_present NoThinking = False"
| "thinking_present (ThinkingStr s) = (s \<noteq> [])"
| "thinking_present (ThinkingObj t c m r) = True"

fun thinkingText :: "thinking \<Rightarrow> string" where
  "thinkingText NoThinking = []"
| "thinkingText (ThinkingStr s) = s"
| "thinkingText (ThinkingObj t c m r) = or_else t (or_else c (or_else m r))"

section \<open>The live streaming decoder: processStreamingResponse\<close>

text \<open>
  The closure variables of \<open>processStreamingResponse\<close>, with three logs: the deltas
  built (\<open>emitted\<close>), the calls of the observer (\<open>notified\<close>) and the number of
  parse diagnostics written with \<open>console.warn\<close> (\<open>warned\<close>).
\<close>

record stream_state =
  buffer :: string
  deltaIndex :: nat
  combinedContent :: string
  thinkingContent :: string
  hasThinking :: bool
  toolResults :: "content_item list"
  charts :: "content_item list"
  emitted :: "delta list"
  notified :: "notification list"
  warned :: nat

definition stream_init :: stream_state where
  "stream_init =
     \<lparr>buffer = [], deltaIndex = 0, combinedContent = [], thinkingContent = [],
      hasThinking = False, toolResults = [], charts = [], emitted = [], notified = [],
      warned = 0\<rparr>"

text \<open>
  The \<open>switch (content.type)\<close> of the live path; \<open>inc\<close> is
  \<open>process.env.INCLUDE_AGENT_THINKING === 'true'\<close>.
\<close>

fun stream_route :: "bool \<Rightarrow> content_item \<Rightarrow> stream_state \<Rightarrow> stream_state" where
  "stream_route inc (Text t) s = s\<lparr>combinedContent := combinedContent s @ or_else t []\<rparr>"
| "stream_route inc (ToolUse n i) s = s\<lparr>toolResults := toolResults s @ [ToolUse n i]\<rparr>"
| "stream_route inc (ToolResults r) s = s\<lparr>toolResults := toolResults s @ [ToolResults r]\<rparr>"
| "stream_route inc (Chart c) s = s\<lparr>charts := charts s @ [Chart c]\<rparr>"
| "stream_route inc (Thinking th) s =
     (if thinking_present th \<and> inc
      then s\<lparr>thinkingContent := thinkingContent s @ thinkingText th, hasThinking := True\<rparr>
      else s)"
| "stream_route inc (Unknown ty) s = s"

text \<open>
  The body of \<open>for (const event of events)\<close>. \<open>parse\<close> is \<open>JSON.parse\<close> read at the
  type of a delta payload (\<open>None\<close> when it throws); \<open>obs\<close> says whether an observer
  function was supplied (its own exceptions are caught around the call). The index is
  incremented before the payload is matched and parsed, and the increment stays when the
  parse throws. The debug printing changes no variable and is left out.
\<close>

definition stream_event ::
  "(string \<Rightarrow> delta_data option) \<Rightarrow> bool \<Rightarrow> bool \<Rightarrow> string \<Rightarrow> stream_state \<Rightarrow> stream_state" where
  "stream_event parse inc obs event s =
     (if trim event \<noteq> [] \<and> str_includes event ''event: message.delta'' \<and> str_includes event ''data:''
      then
        (let s1 = s\<lparr>deltaIndex := deltaIndex s + 1\<rparr> in
         case data_match event of
           None \<Rightarrow> s1
         | Some payload \<Rightarrow>
             (case parse payload of
                None \<Rightarrow> s1\<lparr>warned := warned s1 + 1\<rparr>
              | Some dd \<Rightarrow>
                  (let d = individualDelta (deltaIndex s1) dd;
                       s2 = s1\<lparr>emitted := emitted s1 @ [d],
                               notified := notified s1 @ (if obs then [DeltaNote d] else [])\<rparr>
                   in fold (stream_route inc) (d_content d) s2)))
      else s)"

text \<open>
  The \<open>'data'\<close> handler: decode the chunk, append it, split on the separator, keep the
  last piece as the new buffer and process the others in order.
\<close>

definition on_data ::
  "(string \<Rightarrow> delta_data option) \<Rightarrow> bool \<Rightarrow> bool \<Rightarrow> string \<Rightarrow> stream_state \<Rightarrow> stream_state" where
  "on_data parse inc obs chunk s =
     (let chunkStr = toString chunk;
          events = js_split event_separator (buffer s @ chunkStr)
      in fold (stream_event parse inc obs) (butlast events) (s\<lparr>buffer := last events\<rparr>))"

text \<open>The state when the stream ends, the chunks (of bytes) delivered in order.\<close>

definition feed_chunks ::
  "(string \<Rightarrow> delta_data option) \<Rightarrow> bool \<Rightarrow> bool \<Rightarrow> string list \<Rightarrow> stream_state" where
  "feed_chunks parse inc obs chunks = fold (on_data parse inc obs) chunks stream_init"

text \<open>The text a list of deltas carries, in order.\<close>

fun item_text :: "content_item \<Rightarrow> string" where
  "item_text (Text t) = or_else t []"
| "item_text other = []"

definition delta_text :: "delta list \<Rightarrow> string" where
  "delta_text ds = concat (map item_text (concat (map d_content ds)))"

text \<open>
  A piece between two separators is whole when it holds no blank line and ends in no
  line feed, so that the separator after it is the first one the decoder meets.
\<close>

definition frame_delimited :: "string \<Rightarrow> bool" where
  "frame_delimited f = (\<not> str_includes (f @ [newline]) event_separator)"

text \<open>
  The frames of the agent's answer. A \<open>message.delta\<close> frame is the event line and a
  \<open>data:\<close> line with the payload; the payload is one line of text: not empty, no white
  space at its head and no line terminator in it. Any other frame (a completion event, a
  comment) is a whole piece that lacks the event marker or the data line.
\<close>

datatype frame = DeltaFrame string | OtherFrame string

definition delta_frame :: "string \<Rightarrow> string" where
  "delta_frame payload = ''event: message.delta'' @ [newline] @ ''data: '' @ payload"

fun frame_text :: "frame \<Rightarrow> string" where
  "frame_text (DeltaFrame payload) = delta_frame payload"
| "frame_text (OtherFrame t) = t"

definition single_line :: "string \<Rightarrow> bool" where
  "single_line s = list_all (\<lambda>w. \<not> str_includes s w) line_terminators"

definition clean_payload :: "string \<Rightarrow> bool" where
  "clean_payload p = (p \<noteq> [] \<and> char_len white_space p = 0 \<and> single_line p)"

definition passed_frame :: "string \<Rightarrow> bool" where
  "passed_frame f =
     (frame_delimited f \<and>
      \<not> (str_includes f ''event: message.delta'' \<and> str_includes f ''data:''))"

text \<open>
  A well-formed frame: a \<open>message.delta\<close> frame whose payload \<open>JSON.parse\<close> accepts,
  or another frame. A corrupt payload is one that \<open>JSON.parse\<close> rejects.
\<close>

fun well_formed_frame :: "(string \<Rightarrow> delta_data option) \<Rightarrow> frame \<Rightarrow> bool" where
  "well_formed_frame parse (DeltaFrame p) = (clean_payload p \<and> parse p \<noteq> None)"
| "well_formed_frame parse (OtherFrame t) = passed_frame t"


text \<open>The number of \<open>message.delta\<close> frames in a sequence of frames.\<close>

fun is_delta :: "frame \<Rightarrow> bool" where
  "is_delta (DeltaFrame p) = True"
| "is_delta (OtherFrame t) = False"

definition delta_count :: "frame list \<Rightarrow> nat" where
  "delta_count frames = length (filter is_delta frames)"

text \<open>The text of a sequence of pieces, and of frames: each followed by the separator.\<close>

definition wire :: "string list \<Rightarrow> string" where
  "wire pieces = concat (map (\<lambda>f. f @ event_separator) pieces)"

definition stream_text :: "frame list \<Rightarrow> string" where
  "stream_text frames = wire (map frame_text frames)"

text \<open>The parts of a content list each aggregate receives.\<close>

fun is_tool_item :: "content_item \<Rightarrow> bool" where
  "is_tool_item (ToolUse n i) = True"
| "is_tool_item (ToolResults r) = True"
| "is_tool_item other = False"

fun is_chart_item :: "content_item \<Rightarrow> bool" where
  "is_chart_item (Chart c) = True"
| "is_chart_item other = False"

fun captured_thinking :: "bool \<Rightarrow> content_item \<Rightarrow> string option" where
  "captured_thinking inc (Thinking th) =
     (if thinking_present th \<and> inc then Some (thinkingText th) else None)"
| "captured_thinking inc other = None"

section \<open>The buffered decoder: parseSSEResponse\<close>

text \<open>
  The local variables of \<open>parseSSEResponse\<close>, with the logs of the observer's calls and
  of the parse diagnostics. \<open>toolUse\<close> is a single slot: a later \<open>tool_use\<close> item
  replaces an earlier one.
\<close>

record sse_state =
  textContent :: string
  toolUse :: "content_item option"
  sse_toolResults :: "content_item list"
  sse_charts :: "content_item list"
  deltaCount :: nat
  sse_thinkingContent :: string
  sse_hasThinking :: bool
  deltas :: "delta list"
  sse_notified :: "notification list"
  sse_warned :: nat

definition sse_init :: sse_state where
  "sse_init =
     \<lparr>textContent = [], toolUse = None, sse_toolResults = [], sse_charts = [],
      deltaCount = 0, sse_thinkingContent = [], sse_hasThinking = False, deltas = [],
      sse_notified = [], sse_warned = 0\<rparr>"

fun sse_route :: "bool \<Rightarrow> content_item \<Rightarrow> sse_state \<Rightarrow> sse_state" where
  "sse_route inc (Text t) s = s\<lparr>textContent := textContent s @ or_else t []\<rparr>"
| "sse_route inc (ToolUse n i) s = s\<lparr>toolUse := Some (ToolUse n i)\<rparr>"
| "sse_route inc (ToolResults r) s = s\<lparr>sse_toolResults := sse_toolResults s @ [ToolResults r]\<rparr>"
| "sse_route inc (Chart c) s = s\<lparr>sse_charts := sse_charts s @ [Chart c]\<rparr>"
| "sse_route inc (Thinking th) s =
     (if thinking_present th \<and> inc
      then s\<lparr>sse_thinkingContent := sse_thinkingContent s @ thinkingText th,
             sse_hasThinking := True\<rparr>
      else s)"
| "sse_route inc (Unknown ty) s = s"

text \<open>
  The body of the loop over the events. The counter is incremented after the payload is
  matched and before it is parsed; a \<open>done\<close> event calls the observer with the counter.
\<close>

definition sse_event ::
  "(string \<Rightarrow> delta_data option) \<Rightarrow> bool \<Rightarrow> bool \<Rightarrow> string \<Rightarrow> sse_state \<Rightarrow> sse_state" where
  "sse_event parse inc obs event s =
     (if str_includes event ''event: message.delta'' \<and> str_includes event ''data:''
      then
        (case data_match event of
           None \<Rightarrow> s
         | Some payload \<Rightarrow>
             (let s1 = s\<lparr>deltaCount := deltaCount s + 1\<rparr> in
              case parse payload of
                None \<Rightarrow> s1\<lparr>sse_warned := sse_warned s1 + 1\<rparr>
              | Some dd \<Rightarrow>
                  (let d = individualDelta (deltaCount s1) dd;
                       s2 = s1\<lparr>deltas := deltas s1 @ [d],
                               sse_notified :=
                                 sse_notified s1 @ (if obs then [DeltaNote d] else [])\<rparr>
                   in fold (sse_route inc) (d_content d) s2)))
      else if str_includes event ''event: done''
      then (if obs then s\<lparr>sse_notified := sse_notified s @ [Completion (deltaCount s)]\<rparr>
            else s)
      else s)"

text \<open>The events of a buffered text: the pieces that are not blank.\<close>

definition sse_events :: "string \<Rightarrow> string list" where
  "sse_events sseData = filter (\<lambda>event. trim event \<noteq> []) (js_split event_separator sseData)"

definition sse_run ::
  "(string \<Rightarrow> delta_data option) \<Rightarrow> bool \<Rightarrow> bool \<Rightarrow> string \<Rightarrow> sse_state" where
  "sse_run parse inc obs sseData = fold (sse_event parse inc obs) (sse_events sseData) sse_init"

section \<open>CSV text\<close>

text \<open>\<open>xs.join(sep)\<close>.\<close>

fun join :: "string \<Rightarrow> string list \<Rightarrow> string" where
  "join sep [] = []"
| "join sep [x] = x"
| "join sep (x # y # ys) = x @ sep @ join sep (y # ys)"

text \<open>
  The keys of an object are enumerated with the array indices first, in ascending order,
  and the other keys after them in the order of their creation. An array index is the
  decimal numeral, without leading zeros, of a number up to 4294967294; two such numerals
  compare by their lengths and then digit by digit.
\<close>

fun digits_less :: "string \<Rightarrow> string \<Rightarrow> bool" where
  "digits_less (x # xs) (y # ys) =
     ((of_char x :: nat) < of_char y \<or> (x = y \<and> digits_less xs ys))"
| "digits_less xs ys = False"

definition index_less :: "string \<Rightarrow> string \<Rightarrow> bool" where
  "index_less a b = (length a < length b \<or> (length a = length b \<and> digits_less a b))"

definition array_index :: "string \<Rightarrow> bool" where
  "array_index k =
     (k \<noteq> [] \<and> list_all (\<lambda>c. 48 \<le> (of_char c :: nat) \<and> (of_char c :: nat) \<le> 57) k \<and>
      (k = ''0'' \<or> hd k \<noteq> CHR ''0'') \<and> \<not> index_less ''4294967294'' k)"

text \<open>A new key and its value put at the key's place in the enumeration.\<close>

fun insert_key :: "string \<Rightarrow> cell \<Rightarrow> row \<Rightarrow> row" where
  "insert_key k v [] = [(k, v)]"
| "insert_key k v ((k', v') # r) =
     (if array_index k \<and> (if array_index k' then index_less k k' else True)
      then (k, v) # (k', v') # r
      else (k', v') # insert_key k v r)"

text \<open>
  \<open>row[key] = v\<close> on an object made by \<open>{}\<close>, with a string \<open>v\<close>: the key
  \<open>__proto__\<close> names the setter the object inherits, which ignores a string and creates
  no property; an existing key keeps its place; a new key is created.
\<close>

definition obj_set :: "string \<Rightarrow> cell \<Rightarrow> row \<Rightarrow> row" where
  "obj_set k v r =
     (if k = ''__proto__'' then r
      else if k \<in> set (map fst r) then map (\<lambda>(k', v'). if k' = k then (k', v) else (k', v')) r
      else insert_key k v r)"

text \<open>\<open>v.trim().replace(/"/g, '')\<close> on every piece of \<open>line.split(',')\<close>.\<close>

definition csv_fields :: "string \<Rightarrow> string list" where
  "csv_fields line = map (\<lambda>v. filter (\<lambda>c. c \<noteq> CHR 0x22) (trim v)) (js_split '','' line)"

text \<open>\<open>values[index] || ''\<close>.\<close>

definition value_at :: "string list \<Rightarrow> nat \<Rightarrow> string" where
  "value_at values i = (if i < length values then values ! i else [])"

text \<open>
  \<open>parseCSVToJSON\<close>. The argument is \<open>result.text\<close>; when it is absent,
  \<open>csvText.trim()\<close> throws and the function's \<open>catch\<close> returns the empty list.
\<close>

definition parseCSVToJSON :: "string option \<Rightarrow> row list" where
  "parseCSVToJSON csvText =
     (case csvText of
        None \<Rightarrow> []
      | Some text \<Rightarrow>
          (let lines = js_split [newline] (trim text) in
           if length lines < 2 then []
           else
             (let headers = csv_fields (hd lines) in
              map (\<lambda>line.
                     (let values = csv_fields line in
                      fold (\<lambda>(index, header) row. obj_set header (CStr (value_at values index)) row)
                        (enumerate 0 headers) []))
                (tl lines))))"

text \<open>\<open>escapeCSVField\<close>.\<close>

definition escapeCSVField :: "string \<Rightarrow> string" where
  "escapeCSVField str =
     (if CHR '','' \<in> set str \<or> CHR 0x22 \<in> set str \<or> newline \<in> set str \<or>
         carriage_return \<in> set str
      then [CHR 0x22] @ concat (map (\<lambda>c. if c = CHR 0x22 then [CHR 0x22, CHR 0x22] else [c]) str)
           @ [CHR 0x22]
      else str)"

text \<open>The keys of all rows, in first-seen order (the insertion order of the \<open>Set\<close>).\<close>

definition add_column :: "string \<Rightarrow> string list \<Rightarrow> string list" where
  "add_column key cols = (if key \<in> set cols then cols else cols @ [key])"

definition all_columns :: "row list \<Rightarrow> string list" where
  "all_columns data = fold (\<lambda>row cols. fold add_column (map fst row) cols) data []"

text \<open>
  What \<open>String(row[col])\<close> gives when \<open>col\<close> is not a key of the row itself but a
  property the row inherits from \<open>Object.prototype\<close>: the prototype for
  \<open>__proto__\<close>, a built-in function for the others.
\<close>

definition inherited :: "string \<Rightarrow> string option" where
  "inherited col =
     (if col = ''__proto__'' then Some ''[object Object]''
      else if col = ''constructor'' then Some ''function Object() { [native code] }''
      else if col \<in> set [''__defineGetter__'', ''__defineSetter__'', ''__lookupGetter__'',
                          ''__lookupSetter__'', ''hasOwnProperty'', ''isPrototypeOf'',
                          ''propertyIsEnumerable'', ''toLocaleString'', ''toString'', ''valueOf'']
      then Some (''function '' @ col @ ''() { [native code] }'')
      else None)"

text \<open>\<open>value !== null && value !== undefined ? String(value) : ""\<close> for \<open>row[col]\<close>.\<close>

definition displayValue :: "row \<Rightarrow> string \<Rightarrow> string" where
  "displayValue row col =
     (case map_of row col of
        Some (CStr s) \<Rightarrow> s
      | Some CNull \<Rightarrow> []
      | None \<Rightarrow> (case inherited col of Some s \<Rightarrow> s | None \<Rightarrow> []))"

definition generateCSV :: "row list \<Rightarrow> string" where
  "generateCSV data =
     (if data = [] then ''No data to export''
      else
        (let columns = all_columns data in
         if columns = [] then ''No structured data to export''
         else
           join '','' (map escapeCSVField columns) @ [newline] @
           concat (map (\<lambda>row.
                          join '','' (map (\<lambda>col. escapeCSVField (displayValue row col)) columns)
                          @ [newline])
                     data)))"

section \<open>The response synthesizer: formatCortexAgentsResponse\<close>

datatype source_tag = cortex_agents_api | fallback_query | configuration_error | error_fallback

record chart_out =
  chart_type :: string
  spec :: json

text \<open>
  The object every query path returns. The fields \<open>insights\<close>, \<open>sql\<close> and \<open>charts\<close> are
  absent from some of the results the code builds.
\<close>

record result =
  summary :: string
  data :: "row list"
  insights :: "string option"
  source :: source_tag
  sql :: "string option"
  result_charts :: "chart_out list option"

text \<open>The calls made on the warehouse connection, in order.\<close>

datatype db_call = Connect | SwitchContext | ExecuteQuery string

text \<open>The local variables of \<open>formatCortexAgentsResponse\<close>.\<close>

record format_acc =
  acc_summary :: string
  acc_data :: "row list"
  acc_insights :: string
  acc_charts :: "chart_out list"
  acc_sql :: string

definition acc_init :: format_acc where
  "acc_init =
     \<lparr>acc_summary = [], acc_data = [],
      acc_insights = ''Response generated by Snowflake Cortex Agents'',
      acc_charts = [], acc_sql = []\<rparr>"

text \<open>A field of an object read as a string; \<open>None\<close> when absent or \<open>null\<close>.\<close>

definition field :: "row \<Rightarrow> string \<Rightarrow> string option" where
  "field obj k = (case map_of obj k of Some (CStr s) \<Rightarrow> Some s | _ \<Rightarrow> None)"

text \<open>The body of \<open>for (const result of content.tool_results.content)\<close>.\<close>

fun tool_result_step :: "result_item \<Rightarrow> format_acc \<Rightarrow> format_acc" where
  "tool_result_step (JsonResult (JsonArray rows)) a = a\<lparr>acc_data := rows\<rparr>"
| "tool_result_step (JsonResult (JsonObject obj)) a =
     (let a1 = (if or_else (field obj ''sql'') [] \<noteq> []
                then a\<lparr>acc_sql := or_else (field obj ''sql'') [],
                       acc_insights := or_else (field obj ''text'') (acc_insights a)\<rparr>
                else a)
      in if or_else (field obj ''query_id'') [] \<noteq> [] then a1\<lparr>acc_data := [obj]\<rparr> else a1)"
| "tool_result_step (CsvResult text) a = a\<lparr>acc_data := parseCSVToJSON text\<rparr>"
| "tool_result_step OtherResult a = a"

text \<open>
  The \<open>switch (content.type)\<close> of the synthesizer. \<open>parse_spec\<close> is \<open>JSON.parse\<close> on
  a chart specification; \<open>None\<close> is its exception, which leaves the loop.
\<close>

fun format_step :: "(string \<Rightarrow> json option) \<Rightarrow> content_item \<Rightarrow> format_acc \<Rightarrow> format_acc option" where
  "format_step parse_spec (Text t) a = Some (a\<lparr>acc_summary := acc_summary a @ or_else t []\<rparr>)"
| "format_step parse_spec (ToolUse n i) a =
     Some (if n = Some ''DataAnalyst''
           then a\<lparr>acc_insights := ''Generated SQL query using Cortex Agents''\<rparr>
           else a)"
| "format_step parse_spec (ToolResults None) a = Some a"
| "format_step parse_spec (ToolResults (Some rs)) a = Some (fold tool_result_step rs a)"
| "format_step parse_spec (Chart c) a =
     (if or_else c [] = [] then Some a
      else (case parse_spec (or_else c []) of
              None \<Rightarrow> None
            | Some j \<Rightarrow>
                Some (a\<lparr>acc_charts := acc_charts a @ [\<lparr>chart_type = ''vega-lite'', spec = j\<rparr>],
                        acc_insights := acc_insights a @ '' Chart visualization included.''\<rparr>)))"
| "format_step parse_spec (Thinking th) a = Some a"
| "format_step parse_spec (Unknown ty) a = Some a"

fun format_walk :: "(string \<Rightarrow> json option) \<Rightarrow> content_item list \<Rightarrow> format_acc \<Rightarrow> format_acc option" where
  "format_walk parse_spec [] a = Some a"
| "format_walk parse_spec (x # xs) a =
     (case format_step parse_spec x a of
        None \<Rightarrow> None
      | Some a' \<Rightarrow> format_walk parse_spec xs a')"

text \<open>
  \<open>String(n)\<close> for a length, and \<open>toLowerCase\<close> on ASCII letters. The result is
  only searched for \<open>'sql'\<close>, and no character outside ASCII has \<open>s\<close>, \<open>q\<close> or
  \<open>l\<close> as its lower case.
\<close>

function show_nat :: "nat \<Rightarrow> string" where
  "show_nat n =
     (if n < 10 then [char_of (48 + n)]
      else show_nat (n div 10) @ [char_of (48 + n mod 10)])"
  by pat_completeness auto
termination
  by (relation "measure (\<lambda>n. n)") auto

definition toLowerCase :: "string \<Rightarrow> string" where
  "toLowerCase s =
     map (\<lambda>c. if 65 \<le> (of_char c :: nat) \<and> (of_char c :: nat) \<le> 90
              then char_of ((of_char c :: nat) + 32) else c) s"

text \<open>
  The block under \<open>if (sql && sql.trim())\<close>, entered with a SQL text. \<open>exec\<close> is
  \<open>executeQuery\<close>: \<open>Inl\<close> carries the message of the error it throws.
  \<open>switchToOriginalDatabase\<close> catches its own errors.
\<close>

definition execute_sql :: "(string \<Rightarrow> string + row list) \<Rightarrow> format_acc \<Rightarrow> format_acc" where
  "execute_sql exec a =
     (case exec (acc_sql a) of
        Inr queryResults \<Rightarrow>
          (if queryResults \<noteq> []
           then a\<lparr>acc_data := queryResults,
                  acc_summary :=
                    (if str_includes (acc_summary a) ''```sql'' \<or>
                        str_includes (toLowerCase (acc_summary a)) ''sql''
                     then acc_summary a @ [newline, newline] @ ''**Query Results:** '' @
                          show_nat (length queryResults) @ '' row(s) found.''
                     else acc_summary a),
                  acc_insights := ''SQL query executed successfully. '' @ acc_insights a\<rparr>
           else a\<lparr>acc_insights :=
                    ''SQL query executed but returned no results. '' @ acc_insights a\<rparr>)
      | Inl message \<Rightarrow>
          a\<lparr>acc_insights :=
               ''SQL query provided but execution failed: '' @ message @ ''. '' @ acc_insights a\<rparr>)"

text \<open>The summary generated when no text was provided.\<close>

definition fallback_summary :: "format_acc \<Rightarrow> string" where
  "fallback_summary a =
     (if acc_summary a = [] \<and> acc_data a \<noteq> []
      then ''Found '' @ show_nat (length (acc_data a)) @ '' result'' @
           (if length (acc_data a) \<noteq> 1 then ''s'' else []) @ '' for your query.''
      else if acc_summary a = [] then ''Query processed successfully.''
      else acc_summary a)"

text \<open>The result of the outer \<open>catch\<close>.\<close>

definition formatting_failed :: result where
  "formatting_failed =
     \<lparr>summary = ''Cortex Agents response received but formatting failed'',
      data = [], insights = Some ''Please try rephrasing your question'',
      source = cortex_agents_api, sql = None, result_charts = Some []\<rparr>"

text \<open>
  \<open>formatCortexAgentsResponse(delta)\<close> on \<open>delta.content\<close>: the result, and the calls it
  made on the warehouse connection.
\<close>

definition formatCortexAgentsResponse ::
  "(string \<Rightarrow> string + row list) \<Rightarrow> (string \<Rightarrow> json option) \<Rightarrow> content_item list
     \<Rightarrow> result \<times> db_call list" where
  "formatCortexAgentsResponse exec parse_spec content =
     (case format_walk parse_spec content acc_init of
        None \<Rightarrow> (formatting_failed, [])
      | Some a \<Rightarrow>
          (let run = (acc_sql a \<noteq> [] \<and> trim (acc_sql a) \<noteq> []);
               a' = (if run then execute_sql exec a else a)
           in (\<lparr>summary = trim (fallback_summary a'), data = acc_data a',
                insights = Some (acc_insights a'), source = cortex_agents_api,
                sql = Some (acc_sql a'), result_charts = Some (acc_charts a')\<rparr>,
               if run then [SwitchContext, ExecuteQuery (acc_sql a)] else [])))"

section \<open>The end of the stream, and the result of the buffered decoder\<close>

text \<open>The heading of the reasoning message; the emoji as its UTF-8 bytes.\<close>

definition reasoning_header :: string where
  "reasoning_header =
     ''**'' @ [CHR 0xF0, CHR 0x9F, CHR 0xA4, CHR 0x94] @ '' Agent Reasoning:**'' @ [newline]"

definition thinkingMessage :: "string \<Rightarrow> content_item list" where
  "thinkingMessage thinking = [Text (Some (reasoning_header @ thinking))]"

text \<open>What a query returns: one result, or the main result paired with the reasoning.\<close>

datatype api_result = Single result | Multi result result

text \<open>The \<open>combinedDelta.content\<close> the \<open>'end'\<close> handler builds.\<close>

definition stream_combined :: "stream_state \<Rightarrow> content_item list" where
  "stream_combined s =
     (if combinedContent s \<noteq> [] then [Text (Some (combinedContent s))] else []) @
     toolResults s @ charts s"

definition on_end ::
  "(string \<Rightarrow> string + row list) \<Rightarrow> (string \<Rightarrow> json option) \<Rightarrow> stream_state
     \<Rightarrow> api_result \<times> db_call list" where
  "on_end exec parse_spec s =
     (let (mainResponse, calls) = formatCortexAgentsResponse exec parse_spec (stream_combined s) in
      if hasThinking s \<and> thinkingContent s \<noteq> []
      then (let (thinkingResponse, calls') =
                  formatCortexAgentsResponse exec parse_spec (thinkingMessage (thinkingContent s))
            in (Multi mainResponse thinkingResponse, calls @ calls'))
      else (Single mainResponse, calls))"

text \<open>
  \<open>processStreamingResponse\<close> on a stream that delivers the chunks and ends: the value
  the promise resolves to, the calls on the connection, and the observer's calls.
\<close>

definition processStreamingResponse ::
  "(string \<Rightarrow> delta_data option) \<Rightarrow> (string \<Rightarrow> json option) \<Rightarrow> (string \<Rightarrow> string + row list)
     \<Rightarrow> bool \<Rightarrow> bool \<Rightarrow> string list \<Rightarrow> (api_result \<times> db_call list) \<times> notification list" where
  "processStreamingResponse parse parse_spec exec inc obs chunks =
     (let s = feed_chunks parse inc obs chunks in (on_end exec parse_spec s, notified s))"

text \<open>The object \<open>parseSSEResponse\<close> returns; \<open>combinedDelta\<close> is \<open>null\<close> when empty.\<close>

record parse_result =
  combinedDelta :: "content_item list option"
  pr_thinkingMessage :: "content_item list option"
  pr_deltas :: "delta list"
  totalDeltas :: nat

definition sse_combined :: "sse_state \<Rightarrow> content_item list" where
  "sse_combined s =
     (if textContent s \<noteq> [] then [Text (Some (textContent s))] else []) @
     (case toolUse s of None \<Rightarrow> [] | Some t \<Rightarrow> [t]) @
     sse_toolResults s @ sse_charts s"

definition sse_result :: "sse_state \<Rightarrow> parse_result" where
  "sse_result s =
     \<lparr>combinedDelta = (if sse_combined s \<noteq> [] then Some (sse_combined s) else None),
      pr_thinkingMessage =
        (if sse_hasThinking s \<and> sse_thinkingContent s \<noteq> []
         then Some (thinkingMessage (sse_thinkingContent s)) else None),
      pr_deltas = deltas s,
      totalDeltas = deltaCount s\<rparr>"

definition parseSSEResponse ::
  "(string \<Rightarrow> delta_data option) \<Rightarrow> bool \<Rightarrow> bool \<Rightarrow> string \<Rightarrow> parse_result \<times> notification list" where
  "parseSSEResponse parse inc obs sseData =
     (let s = sse_run parse inc obs sseData in (sse_result s, sse_notified s))"

section \<open>The agent call and its fallback: callCortexAgentsAPI, queryWithCortexAgents\<close>

text \<open>
  The collaborators are inputs of the model. \<open>getSnowflakeAccessToken\<close> returns a token,
  returns \<open>null\<close>, or throws; \<open>getAgentConfiguration\<close> returns a configuration,
  returns \<open>null\<close>, or throws with a message; the HTTP request throws (transport error,
  timeout, status 500 and above) or answers with a status and a body. The request
  payload, which only the server reads, is not modelled.
\<close>

datatype token_outcome = Token string | NoToken | TokenThrows

datatype config_outcome = ConfigFound | ConfigMissing | ConfigThrows string

text \<open>
  \<open>response.data\<close>: a stream that delivers chunks and then ends (\<open>True\<close>) or fails
  (\<open>False\<close>), an object with a \<open>delta\<close>, a string, another object with an optional
  \<open>message\<close>, or nothing.
\<close>

datatype body =
    StreamBody "string list" bool
  | DirectDelta "content_item list"
  | TextBody string
  | OtherBody "string option"
  | NoBody

datatype http_outcome = HttpThrows | HttpResponse nat body

record env =
  token :: token_outcome
  account :: "string option"
  agent_name :: "string option"
  agent_config :: config_outcome
  http :: http_outcome
  connect_ok :: bool
  executeQuery :: "string \<Rightarrow> string + row list"
  schema :: "string option"
  JSON_parse_delta :: "string \<Rightarrow> delta_data option"
  JSON_parse_spec :: "string \<Rightarrow> json option"
  INCLUDE_AGENT_THINKING :: bool

text \<open>The calls on the collaborators, in order.\<close>

datatype ext_call =
    GetAccessToken
  | GetAgentConfiguration string
  | HttpPost
  | Db db_call

text \<open>What a call returns: its value, the collaborators it called, the observer's calls.\<close>

type_synonym 'a outcome = "'a \<times> ext_call list \<times> notification list"

definition no_agent_configured :: result where
  "no_agent_configured =
     \<lparr>summary = ''Agent configuration error: No Cortex Agent is configured for this bot.'',
      data = [],
      insights = Some (''Please set CORTEX_AGENTS_AGENT_NAME in your environment variables to ''
        @ ''specify which Cortex Agent to use. Contact your administrator for available ''
        @ ''agent names.''),
      source = configuration_error, sql = None, result_charts = None\<rparr>"

definition agent_not_found :: "string \<Rightarrow> result" where
  "agent_not_found name =
     \<lparr>summary = ''Agent configuration not found for '' @ [CHR 0x27] @ name @ [CHR 0x27] @
        ''. Please check that the agent exists and is accessible.'',
      data = [],
      insights = Some (''Contact your administrator to verify the agent exists and you have ''
        @ ''permissions to access it.''),
      source = configuration_error, sql = None, result_charts = None\<rparr>"

definition agent_read_failed :: "string \<Rightarrow> string \<Rightarrow> result" where
  "agent_read_failed name message =
     \<lparr>summary = ''Failed to read agent configuration for '' @ [CHR 0x27] @ name @ [CHR 0x27] @
        '': '' @ message,
      data = [],
      insights = Some (''Check database permissions and table structure. Contact your ''
        @ ''administrator for assistance.''),
      source = configuration_error, sql = None, result_charts = None\<rparr>"

definition other_format :: "string option \<Rightarrow> result" where
  "other_format message =
     \<lparr>summary = or_else message ''Response received from Cortex Agents'',
      data = [], insights = None, source = cortex_agents_api, sql = None,
      result_charts = None\<rparr>"

text \<open>
  The branches of \<open>callCortexAgentsAPI\<close> on a response below status 400. Every
  exception inside the function ends in its \<open>catch\<close>, which returns \<open>null\<close>.
\<close>

definition handle_body :: "env \<Rightarrow> bool \<Rightarrow> body \<Rightarrow> api_result option outcome" where
  "handle_body e obs b =
     (case b of
        StreamBody chunks ended \<Rightarrow>
          (let ((r, calls), notes) =
                 processStreamingResponse (JSON_parse_delta e) (JSON_parse_spec e)
                   (executeQuery e) (INCLUDE_AGENT_THINKING e) obs chunks
           in if ended then (Some r, map Db calls, notes) else (None, [], notes))
      | DirectDelta content \<Rightarrow>
          (let (r, calls) = formatCortexAgentsResponse (executeQuery e) (JSON_parse_spec e) content
           in (Some (Single r), map Db calls, []))
      | TextBody text \<Rightarrow>
          (if text = [] then (None, [], [])
           else if str_includes text ''event: message.delta''
           then
             (let (parseResult, notes) =
                    parseSSEResponse (JSON_parse_delta e) (INCLUDE_AGENT_THINKING e) obs text
              in case combinedDelta parseResult of
                   None \<Rightarrow> (None, [], notes)
                 | Some content \<Rightarrow>
                     (let (mainResponse, calls) =
                            formatCortexAgentsResponse (executeQuery e) (JSON_parse_spec e) content
                      in case pr_thinkingMessage parseResult of
                           None \<Rightarrow> (Some (Single mainResponse), map Db calls, notes)
                         | Some thinking \<Rightarrow>
                             (let (thinkingResponse, calls') =
                                    formatCortexAgentsResponse (executeQuery e)
                                      (JSON_parse_spec e) thinking
                              in (Some (Multi mainResponse thinkingResponse),
                                  map Db (calls @ calls'), notes))))
           else (Some (Single (other_format None)), [], []))
      | OtherBody message \<Rightarrow> (Some (Single (other_format message)), [], [])
      | NoBody \<Rightarrow> (None, [], []))"

text \<open>The part of \<open>callCortexAgentsAPI\<close> after the agent configuration is accepted.\<close>

definition post_request :: "env \<Rightarrow> bool \<Rightarrow> api_result option outcome" where
  "post_request e obs =
     (case http e of
        HttpThrows \<Rightarrow> (None, [HttpPost], [])
      | HttpResponse status b \<Rightarrow>
          (if status \<ge> 400 then (None, [HttpPost], [])
           else (let (r, calls, notes) = handle_body e obs b in (r, HttpPost # calls, notes))))"

definition callCortexAgentsAPI :: "env \<Rightarrow> bool \<Rightarrow> api_result option outcome" where
  "callCortexAgentsAPI e obs =
     (case token e of
        TokenThrows \<Rightarrow> (None, [GetAccessToken], [])
      | NoToken \<Rightarrow> (None, [GetAccessToken], [])
      | Token accessToken \<Rightarrow>
          (if accessToken = [] then (None, [GetAccessToken], [])
           else
             (case account e of
                None \<Rightarrow> (None, [GetAccessToken], [])
              | Some acct \<Rightarrow>
                  (if or_else (agent_name e) [] \<noteq> []
                   then
                     (let name = or_else (agent_name e) [] in
                      case agent_config e of
                        ConfigThrows message \<Rightarrow>
                          (Some (Single (agent_read_failed name message)),
                           [GetAccessToken, GetAgentConfiguration name], [])
                      | ConfigMissing \<Rightarrow>
                          (Some (Single (agent_not_found name)),
                           [GetAccessToken, GetAgentConfiguration name], [])
                      | ConfigFound \<Rightarrow>
                          (let (r, calls, notes) = post_request e obs
                           in (r, [GetAccessToken, GetAgentConfiguration name] @ calls, notes)))
                   else (Some (Single no_agent_configured), [GetAccessToken], [])))))"

text \<open>The query \<open>fallbackToBasicQuery\<close> runs.\<close>

definition tablesQuery :: "string option \<Rightarrow> string" where
  "tablesQuery sch =
     [newline] @ replicate 16 (CHR 0x20) @ ''SELECT table_name, table_type, comment '' @
     [newline] @ replicate 16 (CHR 0x20) @ ''FROM information_schema.tables '' @
     [newline] @ replicate 16 (CHR 0x20) @ ''WHERE table_schema = '' @ [CHR 0x27] @
       (case sch of None \<Rightarrow> ''undefined'' | Some s \<Rightarrow> s) @ [CHR 0x27] @
     [newline] @ replicate 16 (CHR 0x20) @ ''LIMIT 10'' @
     [newline] @ replicate 12 (CHR 0x20)"

definition error_fallback_result :: result where
  "error_fallback_result =
     \<lparr>summary = ''I'' @ [CHR 0x27] @ ''m having trouble connecting to your data.'',
      data = [],
      insights = Some (''Please check your Snowflake connection and try again. You may need ''
        @ ''to enable Cortex Agents in your account.''),
      source = error_fallback, sql = None, result_charts = None\<rparr>"

definition fallbackToBasicQuery :: "env \<Rightarrow> result \<times> ext_call list" where
  "fallbackToBasicQuery e =
     (if \<not> connect_ok e then (error_fallback_result, [Db Connect])
      else
        (case executeQuery e (tablesQuery (schema e)) of
           Inl message \<Rightarrow>
             (error_fallback_result, [Db Connect, Db (ExecuteQuery (tablesQuery (schema e)))])
         | Inr tables \<Rightarrow>
             (\<lparr>summary = ''Cortex Analyst is not available. Here are the available tables ''
                  @ ''in your schema:'',
               data = tables,
               insights = Some (''You have '' @ show_nat (length tables) @ '' tables available. ''
                  @ ''Try asking specific questions about these tables or contact your ''
                  @ ''administrator to enable Cortex Agents.''),
               source = fallback_query, sql = None, result_charts = None\<rparr>,
              [Db Connect, Db (ExecuteQuery (tablesQuery (schema e)))])))"

definition queryWithCortexAgents :: "env \<Rightarrow> bool \<Rightarrow> api_result outcome" where
  "queryWithCortexAgents e obs =
     (let (cortexResult, calls, notes) = callCortexAgentsAPI e obs in
      case cortexResult of
        Some r \<Rightarrow> (r, calls, notes)
      | None \<Rightarrow>
          (let (r, calls') = fallbackToBasicQuery e in (Single r, calls @ calls', notes)))"

text \<open>The \<open>source\<close> tags of what a query returns.\<close>

fun sources :: "api_result \<Rightarrow> source_tag list" where
  "sources (Single r) = [source r]"
| "sources (Multi m t) = [source m, source t]"

section \<open>Conditions and invariants of the statements\<close>

text \<open>No token: the provider returned \<open>null\<close> or an empty string, or threw.\<close>

definition token_unavailable :: "token_outcome \<Rightarrow> bool" where
  "token_unavailable t = (t = NoToken \<or> t = TokenThrows \<or> t = Token [])"

text \<open>The items of all deltas built so far, and the last \<open>tool_use\<close> item of a list.\<close>

definition stream_items :: "stream_state \<Rightarrow> content_item list" where
  "stream_items s = concat (map d_content (emitted s))"

definition sse_items :: "sse_state \<Rightarrow> content_item list" where
  "sse_items s = concat (map d_content (deltas s))"

fun is_tool_use :: "content_item \<Rightarrow> bool" where
  "is_tool_use (ToolUse n i) = True"
| "is_tool_use other = False"

fun is_tool_results :: "content_item \<Rightarrow> bool" where
  "is_tool_results (ToolResults r) = True"
| "is_tool_results other = False"

definition last_tool_use :: "content_item list \<Rightarrow> content_item option" where
  "last_tool_use items =
     (case filter is_tool_use items of [] \<Rightarrow> None | x # xs \<Rightarrow> Some (last (x # xs)))"

text \<open>The aggregates of the live decoder as functions of the items of its deltas.\<close>

definition stream_inv :: "bool \<Rightarrow> stream_state \<Rightarrow> bool" where
  "stream_inv inc s =
     (combinedContent s = concat (map item_text (stream_items s)) \<and>
      toolResults s = filter is_tool_item (stream_items s) \<and>
      charts s = filter is_chart_item (stream_items s) \<and>
      thinkingContent s = concat (List.map_filter (captured_thinking inc) (stream_items s)) \<and>
      hasThinking s = (List.map_filter (captured_thinking inc) (stream_items s) \<noteq> []))"

definition sse_inv :: "bool \<Rightarrow> sse_state \<Rightarrow> bool" where
  "sse_inv inc s =
     (textContent s = concat (map item_text (sse_items s)) \<and>
      toolUse s = last_tool_use (sse_items s) \<and>
      sse_toolResults s = filter is_tool_results (sse_items s) \<and>
      sse_charts s = filter is_chart_item (sse_items s) \<and>
      sse_thinkingContent s = concat (List.map_filter (captured_thinking inc) (sse_items s)) \<and>
      sse_hasThinking s = (List.map_filter (captured_thinking inc) (sse_items s) \<noteq> []))"

text \<open>
  The agent call gets as far as the HTTP request: a token, an account, an agent name and
  its configuration are there.
\<close>

definition agent_reachable :: "env \<Rightarrow> bool" where
  "agent_reachable e =
     ((case token e of Token t \<Rightarrow> t \<noteq> [] | _ \<Rightarrow> False) \<and> account e \<noteq> None \<and>
      or_else (agent_name e) [] \<noteq> [] \<and> agent_config e = ConfigFound)"

text \<open>What the synthesizer returns for an empty content list.\<close>

definition empty_result :: result where
  "empty_result =
     \<lparr>summary = ''Query processed successfully.'', data = [],
      insights = Some ''Response generated by Snowflake Cortex Agents'',
      source = cortex_agents_api, sql = Some [], result_charts = Some []\<rparr>"

text \<open>
  Fields and rows that the simplified CSV reader reads back unchanged: no comma, double
  quote, line feed or carriage return, and no white space at either end; no key
  \<open>__proto__\<close>; every value a string; every row with the keys of the first row, each
  once.
\<close>

definition plain_field :: "string \<Rightarrow> bool" where
  "plain_field s =
     (CHR '','' \<notin> set s \<and> CHR 0x22 \<notin> set s \<and> newline \<notin> set s \<and>
      carriage_return \<notin> set s \<and> trim s = s)"

fun plain_cell :: "cell \<Rightarrow> bool" where
  "plain_cell CNull = False"
| "plain_cell (CStr s) = plain_field s"

definition plain_row :: "row \<Rightarrow> bool" where
  "plain_row row = list_all (\<lambda>(k, v). plain_field k \<and> k \<noteq> ''__proto__'' \<and> plain_cell v) row"

definition uniform_rows :: "row list \<Rightarrow> bool" where
  "uniform_rows rows =
     list_all (\<lambda>row. distinct (map fst row) \<and> set (map fst row) = set (map fst (hd rows))) rows"

text \<open>The line \<open>generateCSV\<close> writes for a row, and its header line.\<close>

definition csv_line :: "string list \<Rightarrow> row \<Rightarrow> string" where
  "csv_line columns row = join '','' (map (\<lambda>col. escapeCSVField (displayValue row col)) columns)"

definition header_line :: "row list \<Rightarrow> string" where
  "header_line rows = join '','' (map escapeCSVField (all_columns rows))"

section \<open>Example inputs\<close>

text \<open>
  Payloads of \<open>message.delta\<close> frames and what \<open>JSON.parse\<close> returns for them; every
  other string is taken as malformed.
\<close>

definition hello_payload :: string where
  \<open>hello_payload = ''{"id":"a","delta":{"content":[{"type":"text","text":"Hello"}]}}''\<close>

definition world_payload :: string where
  \<open>world_payload = ''{"id":"b","delta":{"content":[{"type":"text","text":" world"}]}}''\<close>

definition cafe_payload :: string where
  \<open>cafe_payload =
     ''{"id":"d","delta":{"content":[{"type":"text","text":"caf'' @ [CHR 0xC3, CHR 0xA9]
     @ ''"}]}}''\<close>

definition cafe_damaged :: string where
  \<open>cafe_damaged =
     ''{"id":"d","delta":{"content":[{"type":"text","text":"caf'' @ replacement @ replacement
     @ ''"}]}}''\<close>

definition cafe_chunks :: "string list" where
  \<open>cafe_chunks =
     [''event: message.delta'' @ [newline] @
        ''data: {"id":"d","delta":{"content":[{"type":"text","text":"caf'' @ [CHR 0xC3],
      [CHR 0xA9] @ ''"}]}}'' @ [newline, newline]]\<close>

definition separator_payload :: string where
  \<open>separator_payload =
     ''{"id":"e","delta":{"content":[{"type":"text","text":"a'' @ [CHR 0xE2, CHR 0x80, CHR 0xA8]
     @ ''b"}]}}''\<close>

definition empty_payload :: string where
  \<open>empty_payload = ''{"id":"n","delta":{"content":[]}}''\<close>

definition tools_payload :: string where
  \<open>tools_payload =
     ''{"id":"c","delta":{"content":[{"type":"tool_use","tool_use":{"name":"DataAnalyst"}},''
     @ ''{"type":"tool_use","tool_use":{"name":"Search"}}]}}''\<close>

definition demo_parse :: "string \<Rightarrow> delta_data option" where
  "demo_parse p =
     (if p = hello_payload
      then Some \<lparr>dd_id = Some ''a'', dd_object = None,
                  dd_content = Some [Text (Some ''Hello'')]\<rparr>
      else if p = world_payload
      then Some \<lparr>dd_id = Some ''b'', dd_object = None,
                  dd_content = Some [Text (Some '' world'')]\<rparr>
      else if p = tools_payload
      then Some \<lparr>dd_id = Some ''c'', dd_object = None,
                  dd_content = Some [ToolUse (Some ''DataAnalyst'') JNull,
                                     ToolUse (Some ''Search'') JNull]\<rparr>
      else if p = cafe_payload
      then Some \<lparr>dd_id = Some ''d'', dd_object = None,
                  dd_content = Some [Text (Some (''caf'' @ [CHR 0xC3, CHR 0xA9]))]\<rparr>
      else if p = cafe_damaged
      then Some \<lparr>dd_id = Some ''d'', dd_object = None,
                  dd_content = Some [Text (Some (''caf'' @ replacement @ replacement))]\<rparr>
      else if p = separator_payload
      then Some \<lparr>dd_id = Some ''e'', dd_object = None,
                  dd_content = Some [Text (Some (''a'' @ [CHR 0xE2, CHR 0x80, CHR 0xA8] @ ''b''))]\<rparr>
      else if p = empty_payload
      then Some \<lparr>dd_id = Some ''n'', dd_object = None, dd_content = Some []\<rparr>
      else None)"

text \<open>
  Two delta frames and a completion event, in three chunks cut inside the first payload,
  inside a separator and inside the last frame.
\<close>

definition done_frame :: string where
  "done_frame = ''event: done'' @ [newline] @ ''data: {}''"

definition demo_frames :: "frame list" where
  "demo_frames = [DeltaFrame hello_payload, DeltaFrame world_payload, OtherFrame done_frame]"

definition demo_chunks :: "string list" where
  \<open>demo_chunks =
     [''event: message.delta'' @ [newline] @
        ''data: {"id":"a","delta":{"content":[{"type":"text","text":"Hel'',
      ''lo"}]}}'' @ [newline],
      [newline] @ delta_frame world_payload @ [newline, newline] @ ''event: done'',
      [newline] @ ''data: {}'' @ [newline, newline]]\<close>

text \<open>A payload cut short, and a stream with it between two good frames.\<close>

definition corrupt_payload :: string where
  \<open>corrupt_payload = ''{"id":"x","delta":{"content":[''\<close>





text \<open>A tool result with a SQL statement, and warehouses that fail, answer, or are idle.\<close>

definition sql_item :: content_item where
  "sql_item =
     ToolResults (Some [JsonResult (JsonObject [(''sql'', CStr ''SELECT 1''),
                                                 (''text'', CStr ''here'')])])"

definition failing_exec :: "string \<Rightarrow> string + row list" where
  "failing_exec q = Inl ''connection lost''"

definition one_row_exec :: "string \<Rightarrow> string + row list" where
  "one_row_exec q = Inr [[(''1'', CStr ''1'')]]"

definition no_spec :: "string \<Rightarrow> json option" where
  "no_spec s = None"

text \<open>
  Environments: no token and no agent name; and a buffered answer holding one frame that
  does not parse.
\<close>

definition env_no_token :: env where
  "env_no_token =
     \<lparr>token = NoToken, account = Some ''acme'', agent_name = None,
      agent_config = ConfigMissing, http = HttpThrows, connect_ok = True,
      executeQuery = one_row_exec, schema = Some ''PUBLIC'',
      JSON_parse_delta = demo_parse, JSON_parse_spec = no_spec,
      INCLUDE_AGENT_THINKING = False\<rparr>"

definition env_buffered_empty :: env where
  "env_buffered_empty =
     \<lparr>token = Token ''jwt'', account = Some ''acme'', agent_name = Some ''analyst'',
      agent_config = ConfigFound,
      http = HttpResponse 200 (TextBody (wire [delta_frame corrupt_payload])),
      connect_ok = True, executeQuery = one_row_exec, schema = Some ''PUBLIC'',
      JSON_parse_delta = demo_parse, JSON_parse_spec = no_spec,
      INCLUDE_AGENT_THINKING = False\<rparr>"

definition env_stream_empty :: env where
  "env_stream_empty =
     env_buffered_empty\<lparr>http := HttpResponse 200
        (StreamBody [wire [delta_frame corrupt_payload]] True)\<rparr>"

text \<open>The same with an answer of one delta whose content list is empty.\<close>

definition env_buffered_hollow :: env where
  "env_buffered_hollow =
     env_buffered_empty\<lparr>http := HttpResponse 200 (TextBody (wire [delta_frame empty_payload]))\<rparr>"

definition env_stream_hollow :: env where
  "env_stream_hollow =
     env_buffered_empty\<lparr>http := HttpResponse 200
        (StreamBody [wire [delta_frame empty_payload]] True)\<rparr>"

text \<open>A chart specification and what \<open>JSON.parse\<close> returns for it.\<close>

definition bar_spec :: string where
  \<open>bar_spec = ''{"mark":"bar"}''\<close>

definition demo_spec :: "string \<Rightarrow> json option" where
  "demo_spec s = (if s = bar_spec then Some (JObj [(''mark'', JStr ''bar'')]) else None)"

text \<open>
  A frame cut inside its payload, then a completion event; and a stream of one frame with
  two \<open>tool_use\<close> items.
\<close>

definition done_chunks :: "string list" where
  \<open>done_chunks =
     [''event: message.delta'' @ [newline] @
        ''data: {"id":"a","delta":{"content":[{"type":"text","text":"Hel'',
      ''lo"}]}}'' @ [newline, newline],
      ''event: done'' @ [newline] @ ''data: {}'' @ [newline, newline]]\<close>

definition tools_stream :: string where
  "tools_stream = wire [delta_frame tools_payload]"

text \<open>Two rows with the same keys in different orders.\<close>

definition people :: "row list" where
  "people =
     [[(''name'', CStr ''Ada''), (''age'', CStr ''36'')],
      [(''age'', CStr ''41''), (''name'', CStr ''Alan Turing'')]]"

section \<open>Splitting is independent of chunk boundaries\<close>

lemma js_split_nonempty: "js_split sep s \<noteq> []"
  by (induction sep s rule: js_split.induct) (auto split: list.splits)

lemma js_split_single: "js_split sep s = [w] \<Longrightarrow> w = s"
  by (induction sep s arbitrary: w rule: js_split.induct)
     (auto simp: js_split_nonempty split: if_splits list.splits)

lemma js_split_short: "length s < length sep \<Longrightarrow> js_split sep s = [s]"
proof (induction s)
  case Nil
  then show ?case by simp
next
  case (Cons c cs)
  then have "take (length sep) (c # cs) \<noteq> sep"
    by (metis length_take min.strict_order_iff min.commute nat_less_le)
  with Cons show ?case by simp
qed

lemma js_split_append:
  "js_split sep (a @ b) = butlast (js_split sep a) @ js_split sep (last (js_split sep a) @ b)"
proof (induction sep a rule: js_split.induct)
  case (1 sep)
  then show ?case by simp
next
  case (2 sep c cs)
  show ?case
  proof (cases "length (c # cs) < length sep")
    case True
    then show ?thesis
      using js_split_short[of "c # cs" sep] by simp
  next
    case False
    then have tk: "take (length sep) ((c # cs) @ b) = take (length sep) (c # cs)"
      using take_append[of "length sep" "c # cs" b] by simp
    from False have dr: "drop (length sep) ((c # cs) @ b) = drop (length sep) (c # cs) @ b"
      using drop_append[of "length sep" "c # cs" b] by simp
    show ?thesis
    proof (cases "sep \<noteq> [] \<and> take (length sep) (c # cs) = sep")
      case True
      with 2(1) have IH:
        "js_split sep (drop (length sep) (c # cs) @ b) =
           butlast (js_split sep (drop (length sep) (c # cs))) @
           js_split sep (last (js_split sep (drop (length sep) (c # cs))) @ b)"
        by simp
      have "js_split sep ((c # cs) @ b) = [] # js_split sep (drop (length sep) ((c # cs) @ b))"
        using True tk by simp
      then show ?thesis
        using True IH dr js_split_nonempty[of sep "drop (length sep) (c # cs)"] by simp
    next
      case nomatch: False
      with 2(2) have IH:
        "js_split sep (cs @ b) =
           butlast (js_split sep cs) @ js_split sep (last (js_split sep cs) @ b)"
        by simp
      obtain w ws where sp: "js_split sep cs = w # ws"
        using js_split_nonempty[of sep cs] by (cases "js_split sep cs") auto
      have spa: "js_split sep (c # cs) = (c # w) # ws"
        using nomatch sp by simp
      have spb: "js_split sep ((c # cs) @ b) =
                   (case js_split sep (cs @ b) of [] \<Rightarrow> [[c]] | w # ws \<Rightarrow> (c # w) # ws)"
        using nomatch tk by auto
      show ?thesis
      proof (cases ws)
        case Nil
        with sp have "w = cs" using js_split_single by blast
        with Nil spa show ?thesis by simp
      next
        case (Cons v vs)
        with IH sp have "js_split sep (cs @ b) = w # butlast (v # vs) @ js_split sep (last (v # vs) @ b)"
          by simp
        with spb spa Cons show ?thesis by simp
      qed
    qed
  qed
qed

lemma js_split_last: "js_split sep (last (js_split sep a)) = [last (js_split sep a)]"
proof -
  have "butlast (js_split sep a) @ [last (js_split sep a)] =
        butlast (js_split sep a) @ js_split sep (last (js_split sep a))"
    using js_split_append[of sep a "[]"] js_split_nonempty[of sep a] by simp
  then show ?thesis by simp
qed

lemma fold_stream_route:
  "fold (stream_route inc) xs s =
     s\<lparr>combinedContent := combinedContent s @ concat (map item_text xs),
       thinkingContent := thinkingContent s @ concat (List.map_filter (captured_thinking inc) xs),
       hasThinking := (hasThinking s \<or> List.map_filter (captured_thinking inc) xs \<noteq> []),
       toolResults := toolResults s @ filter is_tool_item xs,
       charts := charts s @ filter is_chart_item xs\<rparr>"
proof (induction xs arbitrary: s)
  case Nil
  then show ?case by simp
next
  case (Cons x xs)
  show ?case
    by (cases x) (simp_all add: Cons List.map_filter_simps)
qed

lemma stream_event_buffer:
  "stream_event parse inc obs e (s\<lparr>buffer := b\<rparr>) = (stream_event parse inc obs e s)\<lparr>buffer := b\<rparr>"
  by (simp add: stream_event_def Let_def fold_stream_route split: option.splits)

lemma fold_stream_event_buffer:
  "fold (stream_event parse inc obs) es (s\<lparr>buffer := b\<rparr>) =
   (fold (stream_event parse inc obs) es s)\<lparr>buffer := b\<rparr>"
  by (induction es arbitrary: s) (simp_all add: stream_event_buffer)

lemma stream_event_keeps_buffer: "buffer (stream_event parse inc obs e s) = buffer s"
  by (simp add: stream_event_def Let_def fold_stream_route split: option.splits)

lemma fold_stream_event_keeps_buffer:
  "buffer (fold (stream_event parse inc obs) es s) = buffer s"
  by (induction es arbitrary: s) (simp_all add: stream_event_keeps_buffer)

lemma fold_on_data:
  "js_split event_separator (buffer s) = [buffer s] \<Longrightarrow>
   fold (on_data parse inc obs) chunks s =
     (fold (stream_event parse inc obs)
        (butlast (js_split event_separator (buffer s @ concat (map toString chunks)))) s)
     \<lparr>buffer := last (js_split event_separator (buffer s @ concat (map toString chunks)))\<rparr>"
proof (induction chunks arbitrary: s)
  case Nil
  then show ?case by simp
next
  case (Cons c cs)
  let ?ev = "stream_event parse inc obs"
  let ?E1 = "js_split event_separator (buffer s @ toString c)"
  let ?s' = "on_data parse inc obs c s"
  let ?E2 = "js_split event_separator (last ?E1 @ concat (map toString cs))"
  have s': "?s' = (fold ?ev (butlast ?E1) s)\<lparr>buffer := last ?E1\<rparr>"
    by (simp add: on_data_def Let_def fold_stream_event_buffer)
  then have buf: "buffer ?s' = last ?E1" by simp
  have "js_split event_separator (buffer ?s') = [buffer ?s']"
    unfolding buf by (rule js_split_last)
  from Cons.IH[OF this]
  have step: "fold (on_data parse inc obs) cs ?s' =
     (fold ?ev (butlast ?E2) ?s')\<lparr>buffer := last ?E2\<rparr>"
    unfolding buf .
  have E: "js_split event_separator (buffer s @ concat (map toString (c # cs))) =
           butlast ?E1 @ ?E2"
    using js_split_append[of event_separator "buffer s @ toString c" "concat (map toString cs)"]
    by simp
  have ne: "?E2 \<noteq> []" by (rule js_split_nonempty)
  have "fold (on_data parse inc obs) (c # cs) s = fold (on_data parse inc obs) cs ?s'"
    by simp
  also have "\<dots> = (fold ?ev (butlast ?E2) ?s')\<lparr>buffer := last ?E2\<rparr>" by (rule step)
  also have "\<dots> = (fold ?ev (butlast ?E2) (fold ?ev (butlast ?E1) s))\<lparr>buffer := last ?E2\<rparr>"
    unfolding s' by (simp add: fold_stream_event_buffer)
  also have "\<dots> = (fold ?ev (butlast ?E1 @ butlast ?E2) s)\<lparr>buffer := last ?E2\<rparr>"
    by simp
  finally show ?case
    unfolding E using ne by (simp add: butlast_append)
qed

lemma feed_chunks_split:
  "feed_chunks parse inc obs chunks =
     (fold (stream_event parse inc obs)
        (butlast (js_split event_separator (concat (map toString chunks)))) stream_init)
     \<lparr>buffer := last (js_split event_separator (concat (map toString chunks)))\<rparr>"
  unfolding feed_chunks_def
  using fold_on_data[of stream_init parse inc "obs" chunks]
  by (simp add: stream_init_def)

lemma str_includes_Cons_sep:
  "str_includes (c # f @ [newline]) event_separator \<longleftrightarrow>
   take 2 (c # f @ [newline]) = event_separator \<or> str_includes (f @ [newline]) event_separator"
  by (simp add: event_separator_def)

lemma js_split_frame:
  "frame_delimited f \<Longrightarrow>
   js_split event_separator (f @ event_separator @ rest) = f # js_split event_separator rest"
proof (induction f)
  case Nil
  then show ?case by (simp add: event_separator_def)
next
  case (Cons c f)
  from Cons.prems have nohead: "take 2 (c # f @ [newline]) \<noteq> event_separator"
    and tl: "frame_delimited f"
    by (simp_all add: frame_delimited_def event_separator_def)
  have "take 2 ((c # f) @ event_separator @ rest) = take 2 (c # f @ [newline])"
    by (cases f) (simp_all add: event_separator_def)
  with nohead have "take (length event_separator) ((c # f) @ event_separator @ rest) \<noteq> event_separator"
    by (simp add: event_separator_def)
  then show ?case
    using Cons.IH[OF tl] by simp
qed

lemma js_split_wire:
  "\<forall>f\<in>set frames. frame_delimited f \<Longrightarrow> js_split event_separator (wire frames) = frames @ [[]]"
proof (induction frames)
  case Nil
  then show ?case by (simp add: wire_def)
next
  case (Cons f fs)
  then have "js_split event_separator (wire fs) = fs @ [[]]" by simp
  moreover have "wire (f # fs) = f @ event_separator @ wire fs"
    by (simp add: wire_def)
  ultimately show ?case
    using Cons.prems js_split_frame[of f "wire fs"] by simp
qed

lemma str_includes_set: "str_includes s sub \<Longrightarrow> set sub \<subseteq> set s"
proof (induction s)
  case Nil
  then show ?case by simp
next
  case (Cons c cs)
  from Cons.prems have "take (length sub) (c # cs) = sub \<or> str_includes cs sub" by simp
  then show ?case
  proof
    assume "take (length sub) (c # cs) = sub"
    then have "set sub \<subseteq> set (c # cs)" by (metis set_take_subset)
    then show ?thesis .
  next
    assume "str_includes cs sub"
    with Cons.IH show ?thesis by auto
  qed
qed

section \<open>White space, lines and the data line\<close>

lemma char_len_Nil: "char_len cls [] = 0"
proof -
  have "filter (\<lambda>w. take (length w) [] = w) cls = filter (\<lambda>w. w = []) cls"
    by (auto intro: filter_cong)
  moreover have "\<forall>w\<in>set (filter (\<lambda>w. w = []) cls). w = []" by simp
  ultimately show ?thesis
    by (cases "filter (\<lambda>w. w = []) cls") (auto simp: char_len_def)
qed

lemma char_len_0:
  "[] \<notin> set cls \<Longrightarrow> (char_len cls s = 0) = (\<forall>w\<in>set cls. take (length w) s \<noteq> w)"
proof -
  assume ne: "[] \<notin> set cls"
  show ?thesis
  proof (cases "filter (\<lambda>w. take (length w) s = w) cls")
    case Nil
    then have "\<forall>w\<in>set cls. take (length w) s \<noteq> w" by (simp add: filter_empty_conv)
    with Nil show ?thesis by (simp add: char_len_def)
  next
    case (Cons w ws)
    then have "w \<in> set (filter (\<lambda>w. take (length w) s = w) cls)" by simp
    then have w: "w \<in> set cls" "take (length w) s = w" by auto
    with ne have "w \<noteq> []" by auto
    with Cons w show ?thesis by (auto simp: char_len_def)
  qed
qed

lemma char_len_take: "char_len cls s \<noteq> 0 \<Longrightarrow> take (char_len cls s) s \<in> set cls"
proof -
  assume n: "char_len cls s \<noteq> 0"
  then obtain w ws where f: "filter (\<lambda>w. take (length w) s = w) cls = w # ws"
    by (cases "filter (\<lambda>w. take (length w) s = w) cls") (auto simp: char_len_def)
  then have "w \<in> set (filter (\<lambda>w. take (length w) s = w) cls)" by simp
  then have "w \<in> set cls" "take (length w) s = w" by auto
  moreover from f have "char_len cls s = length w" by (simp add: char_len_def)
  ultimately show ?thesis by simp
qed

lemma char_len_le: "char_len cls s \<le> length s"
proof (cases "char_len cls s = 0")
  case True
  then show ?thesis by simp
next
  case False
  then obtain w ws where f: "filter (\<lambda>w. take (length w) s = w) cls = w # ws"
    by (cases "filter (\<lambda>w. take (length w) s = w) cls") (auto simp: char_len_def)
  then have "w \<in> set (filter (\<lambda>w. take (length w) s = w) cls)" by simp
  then have "take (length w) s = w" by auto
  then have "length (take (length w) s) = length w" by simp
  then have "length w \<le> length s" by simp
  with f show ?thesis by (simp add: char_len_def)
qed

lemma class_run_none: "char_len cls s = 0 \<Longrightarrow> class_run cls s = []"
  by (simp add: class_run.simps)

lemma class_run_some:
  "char_len cls s \<noteq> 0 \<Longrightarrow>
   class_run cls s = take (char_len cls s) s # class_run cls (drop (char_len cls s) s)"
  by (subst class_run.simps) simp

lemma class_run_Nil: "class_run cls [] = []"
  by (simp add: class_run_none char_len_Nil)

lemma strip_class_none: "char_len cls s = 0 \<Longrightarrow> strip_class cls s = s"
  by (simp add: strip_class_def class_run_none)

lemma strip_class_some:
  "char_len cls s \<noteq> 0 \<Longrightarrow> strip_class cls s = strip_class cls (drop (char_len cls s) s)"
  using char_len_le[of cls s] by (simp add: strip_class_def class_run_some add.commute)

lemma strip_class_Nil: "strip_class cls [] = []"
  by (simp add: strip_class_def)

lemma trim_Nil: "trim [] = []"
  by (simp add: trim_def strip_class_Nil)

lemma class_run_prefix: "concat (class_run cls s) @ strip_class cls s = s"
proof (induction cls s rule: class_run.induct)
  case (1 cls s)
  show ?case
  proof (cases "char_len cls s = 0")
    case True
    then show ?thesis by (simp add: class_run_none strip_class_none)
  next
    case False
    from 1[OF False] have "concat (class_run cls (drop (char_len cls s) s)) @
       strip_class cls (drop (char_len cls s) s) = drop (char_len cls s) s" .
    then have "take (char_len cls s) s @ concat (class_run cls (drop (char_len cls s) s)) @
       strip_class cls (drop (char_len cls s) s) = s"
      by simp
    then show ?thesis
      using False by (simp add: class_run_some strip_class_some[symmetric])
  qed
qed

lemma strip_class_stops: "char_len cls (strip_class cls s) = 0"
proof (induction cls s rule: class_run.induct)
  case (1 cls s)
  show ?case
  proof (cases "char_len cls s = 0")
    case True
    then show ?thesis by (simp add: strip_class_none)
  next
    case False
    with 1[OF False] show ?thesis by (simp add: strip_class_some[symmetric])
  qed
qed

lemma class_run_members: "set (class_run cls s) \<subseteq> set cls"
proof (induction cls s rule: class_run.induct)
  case (1 cls s)
  show ?case
  proof (cases "char_len cls s = 0")
    case True
    then show ?thesis by (simp add: class_run_none)
  next
    case False
    with 1[OF False] char_len_take[OF False] show ?thesis by (simp add: class_run_some)
  qed
qed

lemma length_strip_class: "length (strip_class cls s) \<le> length s"
  by (simp add: strip_class_def)

lemma drop_same_length: "length (drop n s) = length s \<Longrightarrow> drop n s = s"
proof (cases "n = 0")
  case True
  then show ?thesis by simp
next
  case False
  assume "length (drop n s) = length s"
  with False have "s = []" by (cases s) auto
  then show ?thesis by simp
qed

lemma strip_class_bytes: "strip_class cls s = [] \<Longrightarrow> set s \<subseteq> \<Union> (set ` set cls)"
proof -
  assume "strip_class cls s = []"
  with class_run_prefix[of cls s] have "s = concat (class_run cls s)" by simp
  then have "set s = \<Union> (set ` set (class_run cls s))" by (metis set_concat)
  with class_run_members[of cls s] show ?thesis by auto
qed

lemma strip_class_set: "set s \<subseteq> \<Union> (set ` set cls) \<union> set (strip_class cls s)"
proof -
  have "set s = set (concat (class_run cls s)) \<union> set (strip_class cls s)"
    using class_run_prefix[of cls s] by (metis set_append)
  with class_run_members[of cls s] show ?thesis by auto
qed

lemma trim_blank_bytes: "trim s = [] \<Longrightarrow> set s \<subseteq> \<Union> (set ` set white_space)"
proof -
  assume "trim s = []"
  then have "strip_class (map rev white_space) (rev (strip_class white_space s)) = []"
    by (simp add: trim_def)
  from strip_class_bytes[OF this]
  have "set (strip_class white_space s) \<subseteq> \<Union> (set ` set white_space)" by auto
  with strip_class_set[of s white_space] show ?thesis by auto
qed

lemma trim_fixed:
  "trim s = s \<longleftrightarrow>
   char_len white_space s = 0 \<and> char_len (map rev white_space) (rev s) = 0"
proof
  assume t: "trim s = s"
  let ?a = "strip_class white_space s"
  let ?b = "strip_class (map rev white_space) (rev ?a)"
  have l: "length ?b \<le> length ?a" "length ?a \<le> length s"
    using length_strip_class[of "map rev white_space" "rev ?a"] length_strip_class[of white_space s]
    by simp_all
  from t have "length ?b = length s" by (metis trim_def length_rev)
  with l have e: "length ?a = length s" by simp
  then have a: "?a = s" unfolding strip_class_def by (rule drop_same_length)
  with t have "rev ?b = s" by (simp add: trim_def)
  then have "strip_class (map rev white_space) (rev s) = rev s" using a by (metis rev_rev_ident)
  then have "char_len (map rev white_space) (rev s) = 0"
    using strip_class_stops[of "map rev white_space" "rev s"] by simp
  moreover from a have "char_len white_space s = 0"
    using strip_class_stops[of white_space s] by simp
  ultimately show "char_len white_space s = 0 \<and> char_len (map rev white_space) (rev s) = 0"
    by simp
next
  assume "char_len white_space s = 0 \<and> char_len (map rev white_space) (rev s) = 0"
  then show "trim s = s" by (simp add: trim_def strip_class_none)
qed

lemma char_len_append:
  assumes "[] \<notin> set cls" and "char_len cls x = 0" and "x \<noteq> []"
    and "\<forall>w\<in>set cls. c \<notin> set (tl w)"
  shows "char_len cls (x @ c # r) = 0"
proof -
  have "take (length w) (x @ c # r) \<noteq> w" if w: "w \<in> set cls" for w
  proof
    assume m: "take (length w) (x @ c # r) = w"
    show False
    proof (cases "length w \<le> length x")
      case True
      with m have "take (length w) x = w" by simp
      with assms(1,2) w show False by (simp add: char_len_0)
    next
      case False
      then have "take (length w) (x @ c # r) = x @ c # take (length w - Suc (length x)) r"
        by (simp add: take_Cons')
      with m have "w = x @ c # take (length w - Suc (length x)) r" by simp
      then have "tl w = tl (x @ c # take (length w - Suc (length x)) r)" by simp
      with assms(3) have "tl w = tl x @ c # take (length w - Suc (length x)) r" by simp
      then have "c \<in> set (tl w)" by simp
      with assms(4) w show False by blast
    qed
  qed
  with assms(1) show ?thesis by (simp add: char_len_0)
qed

lemma char_len_head:
  assumes "[] \<notin> set cls" and "\<forall>w\<in>set cls. hd w \<noteq> c"
  shows "char_len cls (c # r) = 0"
proof -
  have "take (length w) (c # r) \<noteq> w" if w: "w \<in> set cls" for w
  proof
    assume m: "take (length w) (c # r) = w"
    from w assms(1) have "w \<noteq> []" by auto
    with m have "hd w = c" by (cases w) auto
    with assms(2) w show False by blast
  qed
  with assms(1) show ?thesis by (simp add: char_len_0)
qed

lemma white_space_nonempty: "[] \<notin> set white_space"
  by (simp add: white_space_def)

lemma line_terminators_nonempty: "[] \<notin> set line_terminators"
  by (simp add: line_terminators_def)

lemma single_line_Cons: "single_line (c # cs) \<Longrightarrow> single_line cs"
  by (auto simp: single_line_def list_all_iff)

lemma single_line_head: "single_line (c # cs) \<Longrightarrow> char_len line_terminators (c # cs) = 0"
proof -
  assume s: "single_line (c # cs)"
  have "take (length w) (c # cs) \<noteq> w" if "w \<in> set line_terminators" for w
    using s that by (auto simp: single_line_def list_all_iff)
  then show ?thesis by (simp add: char_len_0 line_terminators_nonempty)
qed

lemma line_of_single: "single_line p \<Longrightarrow> line_of p = p"
proof (induction p)
  case Nil
  then show ?case by simp
next
  case (Cons c cs)
  then show ?case using single_line_Cons[of c cs] single_line_head[of c cs] by simp
qed

lemma single_line_newline: "single_line p \<Longrightarrow> newline \<notin> set p"
proof (induction p)
  case Nil
  then show ?case by simp
next
  case (Cons c cs)
  from Cons.prems have "\<not> str_includes (c # cs) [newline]"
    by (simp add: single_line_def line_terminators_def newline_def)
  then have "c \<noteq> newline" by auto
  with Cons.IH single_line_Cons[OF Cons.prems] show ?case by simp
qed

lemma space_run: "char_len white_space p = 0 \<Longrightarrow> class_run white_space (CHR 0x20 # p) = ['' '']"
proof -
  assume p: "char_len white_space p = 0"
  have n: "char_len white_space (CHR 0x20 # p) = 1"
    by (simp add: char_len_def white_space_def)
  then show ?thesis
    using p by (simp add: class_run_some class_run_none)
qed

lemma capture_after_clean: "clean_payload p \<Longrightarrow> capture_after (CHR 0x20 # p) = Some p"
proof -
  assume c: "clean_payload p"
  then have "strip_class white_space (CHR 0x20 # p) = p"
    by (simp add: strip_class_def space_run clean_payload_def)
  moreover from c have "line_of p = p" by (simp add: clean_payload_def line_of_single)
  ultimately show ?thesis using c by (simp add: capture_after_def clean_payload_def)
qed

lemma data_match_delta_frame: "clean_payload p \<Longrightarrow> data_match (delta_frame p) = Some p"
  by (simp add: delta_frame_def newline_def capture_after_clean)

lemma no_separator: "newline \<notin> set p \<Longrightarrow> \<not> str_includes (p @ [newline]) event_separator"
  by (induction p) (auto simp: event_separator_def)

lemma delta_frame_delimited: "newline \<notin> set p \<Longrightarrow> frame_delimited (delta_frame p)"
  using no_separator[of p]
  by (simp add: frame_delimited_def delta_frame_def event_separator_def newline_def)

lemma delta_frame_marks:
  "str_includes (delta_frame p) ''event: message.delta'' \<and> str_includes (delta_frame p) ''data:''"
  by (simp add: delta_frame_def)

lemma includes_not_blank:
  assumes "str_includes f sub" and "c \<in> set sub" and "c \<notin> \<Union> (set ` set white_space)"
  shows "trim f \<noteq> []"
proof
  assume "trim f = []"
  then have "set f \<subseteq> \<Union> (set ` set white_space)" by (rule trim_blank_bytes)
  moreover from assms(1,2) have "c \<in> set f" using str_includes_set by fastforce
  ultimately show False using assms(3) by blast
qed

lemma includes_data_not_blank: "str_includes f ''data:'' \<Longrightarrow> trim f \<noteq> []"
  using includes_not_blank[of f "''data:''" "CHR ''d''"] by (simp add: white_space_def)

section \<open>The live decoder on well-formed frames\<close>

lemma stream_event_valid:
  assumes "clean_payload p" and "parse p = Some dd"
  shows "\<exists>d. d_index d = Suc (deltaIndex s) \<and>
             emitted (stream_event parse inc obs (delta_frame p) s) = emitted s @ [d] \<and>
             deltaIndex (stream_event parse inc obs (delta_frame p) s) = Suc (deltaIndex s) \<and>
             warned (stream_event parse inc obs (delta_frame p) s) = warned s"
proof -
  have m: "data_match (delta_frame p) = Some p"
    using assms(1) by (rule data_match_delta_frame)
  have rel: "trim (delta_frame p) \<noteq> [] \<and> str_includes (delta_frame p) ''event: message.delta'' \<and>
             str_includes (delta_frame p) ''data:''"
    using delta_frame_marks[of p] by (simp add: includes_data_not_blank)
  show ?thesis
    using m assms(2) rel
    by (simp add: stream_event_def Let_def fold_stream_route individualDelta_def)
qed

lemma stream_event_passed: "passed_frame f \<Longrightarrow> stream_event parse inc obs f s = s"
  by (auto simp: passed_frame_def stream_event_def)

lemma fold_stream_event_frames:
  "\<forall>f\<in>set fs. well_formed_frame parse f \<Longrightarrow>
   map d_index (emitted (fold (stream_event parse inc obs) (map frame_text fs) s)) =
     map d_index (emitted s) @ [Suc (deltaIndex s) ..< Suc (deltaIndex s + delta_count fs)] \<and>
   deltaIndex (fold (stream_event parse inc obs) (map frame_text fs) s) =
     deltaIndex s + delta_count fs \<and>
   warned (fold (stream_event parse inc obs) (map frame_text fs) s) = warned s"
proof (induction fs arbitrary: s)
  case Nil
  then show ?case by (simp add: delta_count_def)
next
  case (Cons f fs)
  from Cons.prems have rest: "\<forall>f\<in>set fs. well_formed_frame parse f" by simp
  show ?case
  proof (cases f)
    case (DeltaFrame p)
    with Cons.prems obtain dd where cl: "clean_payload p" and pr: "parse p = Some dd"
      by auto
    let ?s' = "stream_event parse inc obs (delta_frame p) s"
    have "\<exists>d. d_index d = Suc (deltaIndex s) \<and> emitted ?s' = emitted s @ [d] \<and>
              deltaIndex ?s' = Suc (deltaIndex s) \<and> warned ?s' = warned s"
      using cl pr by (rule stream_event_valid)
    then obtain d where
      d: "d_index d = Suc (deltaIndex s)"
         "emitted ?s' = emitted s @ [d]"
         "deltaIndex ?s' = Suc (deltaIndex s)"
         "warned ?s' = warned s"
      by blast
    from DeltaFrame have c: "delta_count (f # fs) = Suc (delta_count fs)"
      by (simp add: delta_count_def)
    from Cons.IH[OF rest, of ?s']
    have IH: "map d_index (emitted (fold (stream_event parse inc obs) (map frame_text fs) ?s')) =
            (map d_index (emitted s) @ [Suc (deltaIndex s)]) @
            [Suc (Suc (deltaIndex s)) ..< Suc (Suc (deltaIndex s) + delta_count fs)] \<and>
          deltaIndex (fold (stream_event parse inc obs) (map frame_text fs) ?s') =
            Suc (deltaIndex s) + delta_count fs \<and>
          warned (fold (stream_event parse inc obs) (map frame_text fs) ?s') = warned s"
      by (simp only: d map_append list.map)
    have u: "[Suc (deltaIndex s) ..< Suc (deltaIndex s + delta_count (f # fs))] =
             Suc (deltaIndex s) #
             [Suc (Suc (deltaIndex s)) ..< Suc (Suc (deltaIndex s) + delta_count fs)]"
      unfolding c by (simp add: upt_conv_Cons del: upt_Suc)
    have step: "fold (stream_event parse inc obs) (map frame_text (f # fs)) s =
                fold (stream_event parse inc obs) (map frame_text fs) ?s'"
      using DeltaFrame by simp
    show ?thesis
      unfolding u step using IH c by (simp del: upt_Suc)
  next
    case (OtherFrame t)
    with Cons.prems have "passed_frame t" by simp
    then have same: "stream_event parse inc obs t s = s" by (rule stream_event_passed)
    from OtherFrame have c: "delta_count (f # fs) = delta_count fs"
      by (simp add: delta_count_def)
    have step: "fold (stream_event parse inc obs) (map frame_text (f # fs)) s =
                fold (stream_event parse inc obs) (map frame_text fs) s"
      using OtherFrame same by simp
    show ?thesis
      unfolding step c using Cons.IH[OF rest, of s] .
  qed
qed

lemma stream_event_text:
  "combinedContent s = delta_text (emitted s) \<Longrightarrow>
   combinedContent (stream_event parse inc obs e s) = delta_text (emitted (stream_event parse inc obs e s))"
  by (simp add: stream_event_def Let_def fold_stream_route delta_text_def split: option.splits)

lemma fold_stream_event_text:
  "combinedContent s = delta_text (emitted s) \<Longrightarrow>
   combinedContent (fold (stream_event parse inc obs) es s) =
   delta_text (emitted (fold (stream_event parse inc obs) es s))"
  by (induction es arbitrary: s) (simp_all add: stream_event_text)

lemma feed_chunks_text:
  "combinedContent (feed_chunks parse inc obs chunks) =
   delta_text (emitted (feed_chunks parse inc obs chunks))"
  by (simp add: feed_chunks_split fold_stream_event_text stream_init_def delta_text_def)

lemma well_formed_delimited: "well_formed_frame parse f \<Longrightarrow> frame_delimited (frame_text f)"
proof (cases f)
  case (DeltaFrame p)
  assume "well_formed_frame parse f"
  with DeltaFrame have "single_line p" by (simp add: clean_payload_def)
  then have "newline \<notin> set p" by (rule single_line_newline)
  then show ?thesis using DeltaFrame by (simp add: delta_frame_delimited)
next
  case (OtherFrame t)
  assume "well_formed_frame parse f"
  with OtherFrame show ?thesis by (simp add: passed_frame_def)
qed

text \<open>
  What holds of chunking. For well-formed frames (\<open>message.delta\<close> frames with a
  one-line payload that parses, and frames the decoder passes over), delivered in chunks
  whose decoded texts put together are the text of the frames (every cut falls between
  two characters; it may fall inside a frame or inside a separator), the live decoder
  emits deltas with the indices \<open>1, \<dots>, N\<close> in order, one per \<open>message.delta\<close> frame,
  and ends in the same state as when the whole stream arrives as one chunk; so the text
  carried by the emitted deltas is the same, and it is the accumulated
  \<open>combinedContent\<close>.
\<close>

theorem chunking_between_characters:
  assumes "\<forall>f\<in>set frames. well_formed_frame parse f"
    and "concat (map toString chunks) = stream_text frames"
    and "toString (stream_text frames) = stream_text frames"
  shows "map d_index (emitted (feed_chunks parse inc obs chunks)) =
           [1..<Suc (delta_count frames)] \<and>
         feed_chunks parse inc obs chunks = feed_chunks parse inc obs [stream_text frames] \<and>
         delta_text (emitted (feed_chunks parse inc obs chunks)) =
           delta_text (emitted (feed_chunks parse inc obs [stream_text frames])) \<and>
         combinedContent (feed_chunks parse inc obs chunks) =
           delta_text (emitted (feed_chunks parse inc obs chunks))"
proof -
  from assms(1) have del: "\<forall>f\<in>set (map frame_text frames). frame_delimited f"
    using well_formed_delimited by auto
  have sp: "js_split event_separator (concat (map toString chunks)) =
            map frame_text frames @ [[]]"
    using js_split_wire[OF del] assms(2) by (simp add: stream_text_def)
  have same: "feed_chunks parse inc obs chunks = feed_chunks parse inc obs [stream_text frames]"
    using assms(2,3) by (simp add: feed_chunks_split)
  have "emitted (feed_chunks parse inc obs chunks) =
        emitted (fold (stream_event parse inc obs) (map frame_text frames) stream_init)"
    by (simp add: feed_chunks_split sp)
  then have idx: "map d_index (emitted (feed_chunks parse inc obs chunks)) =
                    [1..<Suc (delta_count frames)]"
    using fold_stream_event_frames[OF assms(1), of inc obs stream_init]
    by (simp add: stream_init_def)
  show ?thesis
    using idx same feed_chunks_text by simp
qed

lemma demo_hello_clean: "clean_payload hello_payload \<and> demo_parse hello_payload \<noteq> None"
  by code_simp

lemma demo_world_clean: "clean_payload world_payload \<and> demo_parse world_payload \<noteq> None"
  by code_simp

lemma demo_done_passed: "passed_frame done_frame"
  by code_simp

lemma demo_chunks_wire: "concat (map toString demo_chunks) = stream_text demo_frames"
  by code_simp

lemma demo_wire_text: "toString (stream_text demo_frames) = stream_text demo_frames"
  by code_simp

theorem chunking_between_characters_witness:
  "well_formed_frame demo_parse (DeltaFrame hello_payload) \<and>
   well_formed_frame demo_parse (DeltaFrame world_payload) \<and>
   well_formed_frame demo_parse (OtherFrame done_frame) \<and>
   concat (map toString demo_chunks) = stream_text demo_frames \<and>
   toString (stream_text demo_frames) = stream_text demo_frames \<and>
   map d_index (emitted (feed_chunks demo_parse True True demo_chunks)) = [1, 2] \<and>
   feed_chunks demo_parse True True demo_chunks =
     feed_chunks demo_parse True True [stream_text demo_frames]"
proof -
  have wf: "well_formed_frame demo_parse (DeltaFrame hello_payload)"
    "well_formed_frame demo_parse (DeltaFrame world_payload)"
    "well_formed_frame demo_parse (OtherFrame done_frame)"
    using demo_hello_clean demo_world_clean demo_done_passed by simp_all
  then have all: "\<forall>f\<in>set demo_frames. well_formed_frame demo_parse f"
    by (simp add: demo_frames_def)
  note th = chunking_between_characters[OF all demo_chunks_wire demo_wire_text, of True True]
  have n: "delta_count demo_frames = 2"
    by (simp add: delta_count_def demo_frames_def)
  have idx: "map d_index (emitted (feed_chunks demo_parse True True demo_chunks)) = [1, 2]"
    using th[THEN conjunct1] by (simp add: n upt_rec)
  have same: "feed_chunks demo_parse True True demo_chunks =
     feed_chunks demo_parse True True [stream_text demo_frames]"
    using th by blast
  show ?thesis
    using wf demo_chunks_wire demo_wire_text idx same by blast
qed

lemma demo_chunks_text:
  "combinedContent (feed_chunks demo_parse True True demo_chunks) = ''Hello world''"
  by code_simp

text \<open>
  C2. A frame whose text holds the two-byte character U+00E9, delivered in two chunks cut
  between its bytes: each chunk is decoded on its own, so each half becomes U+FFFD. The
  decoder emits one delta with the index 1 either way, but the text of the deltas is
  \<open>caf\<close> followed by two replacement characters, where the same bytes in one chunk
  give \<open>caf\<close> followed by U+00E9.
\<close>

theorem chunk_cut_inside_character:
  "concat cafe_chunks = wire [delta_frame cafe_payload] \<and>
   map d_index (emitted (feed_chunks demo_parse False False cafe_chunks)) = [1] \<and>
   map d_index (emitted (feed_chunks demo_parse False False [concat cafe_chunks])) = [1] \<and>
   delta_text (emitted (feed_chunks demo_parse False False cafe_chunks)) =
     ''caf'' @ replacement @ replacement \<and>
   delta_text (emitted (feed_chunks demo_parse False False [concat cafe_chunks])) =
     ''caf'' @ [CHR 0xC3, CHR 0xA9]"
proof -
  have 1: "concat cafe_chunks = wire [delta_frame cafe_payload]" by code_simp
  have 2: "map d_index (emitted (feed_chunks demo_parse False False cafe_chunks)) = [1]"
    by code_simp
  have 3: "map d_index (emitted (feed_chunks demo_parse False False [concat cafe_chunks])) = [1]"
    by code_simp
  have 4: "delta_text (emitted (feed_chunks demo_parse False False cafe_chunks)) =
     ''caf'' @ replacement @ replacement"
    by code_simp
  have 5: "delta_text (emitted (feed_chunks demo_parse False False [concat cafe_chunks])) =
     ''caf'' @ [CHR 0xC3, CHR 0xA9]"
    by code_simp
  from 1 2 3 4 5 show ?thesis by blast
qed

section \<open>Frames whose payload does not parse\<close>

















section \<open>The synthesizer\<close>

lemma trim_nonempty: "trim s \<noteq> [] \<Longrightarrow> s \<noteq> []"
  by (auto simp: trim_Nil)

text \<open>
  C4. When the walk over the content ends with a SQL text that is not blank and
  \<open>executeQuery\<close> throws on it, the synthesizer still returns a result: the rows are
  those computed before the attempt, and the insights are the earlier insights prefixed
  with the execution-failed marker and the error's message.
\<close>

theorem sql_failure_is_absorbed:
  assumes "format_walk parse_spec content acc_init = Some a"
    and "trim (acc_sql a) \<noteq> []"
    and "exec (acc_sql a) = Inl message"
  shows "formatCortexAgentsResponse exec parse_spec content =
           (\<lparr>summary = trim (fallback_summary a),
             data = acc_data a,
             insights = Some (''SQL query provided but execution failed: '' @ message @ ''. ''
                              @ acc_insights a),
             source = cortex_agents_api,
             sql = Some (acc_sql a),
             result_charts = Some (acc_charts a)\<rparr>,
            [SwitchContext, ExecuteQuery (acc_sql a)])"
  using assms trim_nonempty[of "acc_sql a"]
  by (simp add: formatCortexAgentsResponse_def execute_sql_def fallback_summary_def Let_def)

theorem sql_failure_is_absorbed_witness:
  "format_walk no_spec [sql_item] acc_init =
     Some \<lparr>acc_summary = [], acc_data = [], acc_insights = ''here'', acc_charts = [],
           acc_sql = ''SELECT 1''\<rparr> \<and>
   trim ''SELECT 1'' \<noteq> [] \<and>
   failing_exec ''SELECT 1'' = Inl ''connection lost'' \<and>
   formatCortexAgentsResponse failing_exec no_spec [sql_item] =
     (\<lparr>summary = ''Query processed successfully.'', data = [],
       insights = Some ''SQL query provided but execution failed: connection lost. here'',
       source = cortex_agents_api, sql = Some ''SELECT 1'', result_charts = Some []\<rparr>,
      [SwitchContext, ExecuteQuery ''SELECT 1''])"
proof -
  let ?a = "\<lparr>acc_summary = [], acc_data = [], acc_insights = ''here'', acc_charts = [],
           acc_sql = ''SELECT 1''\<rparr>"
  have w: "format_walk no_spec [sql_item] acc_init = Some ?a"
    by code_simp
  have t: "trim (acc_sql ?a) \<noteq> []" by code_simp
  have f: "failing_exec (acc_sql ?a) = Inl ''connection lost''" by (simp add: failing_exec_def)
  have s: "trim (fallback_summary ?a) = ''Query processed successfully.''" by code_simp
  note th = sql_failure_is_absorbed[of no_spec "[sql_item]" ?a failing_exec "''connection lost''"]
  from th w t f s show ?thesis by simp
qed

lemma format_thinkingMessage:
  "formatCortexAgentsResponse exec parse_spec (thinkingMessage thinking) =
     (\<lparr>summary = trim (reasoning_header @ thinking), data = [],
       insights = Some ''Response generated by Snowflake Cortex Agents'',
       source = cortex_agents_api, sql = Some [], result_charts = Some []\<rparr>, [])"
proof -
  have h: "reasoning_header \<noteq> []" by (simp add: reasoning_header_def)
  then show ?thesis
    by (simp add: formatCortexAgentsResponse_def thinkingMessage_def acc_init_def
          fallback_summary_def Let_def)
qed

text \<open>
  C7. The reasoning result is synthesized from a single text item. Whatever the thinking
  text is, its synthesis extracts no SQL and makes no call on the warehouse, and so the
  calls of the end-of-stream handler are those of the main response alone.
\<close>

theorem reasoning_never_executes_sql:
  "formatCortexAgentsResponse exec parse_spec (thinkingMessage thinking) =
     (\<lparr>summary = trim (reasoning_header @ thinking), data = [],
       insights = Some ''Response generated by Snowflake Cortex Agents'',
       source = cortex_agents_api, sql = Some [], result_charts = Some []\<rparr>, []) \<and>
   snd (on_end exec parse_spec s) =
     snd (formatCortexAgentsResponse exec parse_spec (stream_combined s))"
  by (auto simp: format_thinkingMessage on_end_def Let_def split: prod.splits)

section \<open>Authentication failure and the fallback query\<close>

lemma fallback_source:
  "source (fst (fallbackToBasicQuery e)) = fallback_query \<or>
   source (fst (fallbackToBasicQuery e)) = error_fallback"
  by (simp add: fallbackToBasicQuery_def error_fallback_result_def split: sum.splits)

lemma fallback_calls: "GetAgentConfiguration n \<notin> set (snd (fallbackToBasicQuery e))"
  by (auto simp: fallbackToBasicQuery_def split: sum.splits)

text \<open>
  C10. When the token provider returns no token (or throws), \<open>callCortexAgentsAPI\<close>
  returns \<open>null\<close> having called nothing but the token provider, and
  \<open>queryWithCortexAgents\<close> returns the result of \<open>fallbackToBasicQuery\<close>: the agent
  configuration is never looked up and no result is tagged \<open>configuration_error\<close>,
  whether an agent name is configured or not.
\<close>

theorem authentication_failure_precedes_configuration:
  assumes "token_unavailable (token e)"
  shows "callCortexAgentsAPI e obs = (None, [GetAccessToken], []) \<and>
         queryWithCortexAgents e obs =
           (Single (fst (fallbackToBasicQuery e)),
            GetAccessToken # snd (fallbackToBasicQuery e), []) \<and>
         (\<forall>n. GetAgentConfiguration n \<notin> set (fst (snd (queryWithCortexAgents e obs)))) \<and>
         configuration_error \<notin> set (sources (fst (queryWithCortexAgents e obs)))"
proof -
  have c: "callCortexAgentsAPI e obs = (None, [GetAccessToken], [])"
    using assms by (auto simp: callCortexAgentsAPI_def token_unavailable_def)
  then have q: "queryWithCortexAgents e obs =
           (Single (fst (fallbackToBasicQuery e)),
            GetAccessToken # snd (fallbackToBasicQuery e), [])"
    by (simp add: queryWithCortexAgents_def split: prod.splits)
  have s: "configuration_error \<notin> set (sources (fst (queryWithCortexAgents e obs)))"
    using fallback_source[of e] by (auto simp: q)
  have g: "\<forall>n. GetAgentConfiguration n \<notin> set (fst (snd (queryWithCortexAgents e obs)))"
    using fallback_calls[of _ e] by (simp add: q)
  from c q g s show ?thesis by blast
qed

theorem authentication_failure_precedes_configuration_witness:
  "token_unavailable (token env_no_token) \<and>
   agent_name env_no_token = None \<and>
   callCortexAgentsAPI env_no_token True = (None, [GetAccessToken], []) \<and>
   sources (fst (queryWithCortexAgents env_no_token True)) = [fallback_query] \<and>
   fst (snd (queryWithCortexAgents env_no_token True)) =
     [GetAccessToken, Db Connect, Db (ExecuteQuery (tablesQuery (Some ''PUBLIC'')))]"
proof -
  have t: "token_unavailable (token env_no_token)"
    by (simp add: token_unavailable_def env_no_token_def)
  note th = authentication_failure_precedes_configuration[OF t, of True]
  have f: "fallbackToBasicQuery env_no_token =
     (\<lparr>summary = ''Cortex Analyst is not available. Here are the available tables ''
                  @ ''in your schema:'',
       data = [[(''1'', CStr ''1'')]],
       insights = Some (''You have '' @ show_nat 1 @ '' tables available. ''
                  @ ''Try asking specific questions about these tables or contact your ''
                  @ ''administrator to enable Cortex Agents.''),
       source = fallback_query, sql = None, result_charts = None\<rparr>,
      [Db Connect, Db (ExecuteQuery (tablesQuery (Some ''PUBLIC'')))])"
    by (simp add: fallbackToBasicQuery_def env_no_token_def one_row_exec_def)
  show ?thesis
    using th t f by (simp add: env_no_token_def)
qed

section \<open>The aggregates as functions of the deltas\<close>

lemma last_tool_use_Cons:
  "last_tool_use (x # xs) =
     (case last_tool_use xs of None \<Rightarrow> (if is_tool_use x then Some x else None) | Some t \<Rightarrow> Some t)"
  by (simp add: last_tool_use_def split: list.splits)

lemma fold_sse_route:
  "fold (sse_route inc) xs s =
     s\<lparr>textContent := textContent s @ concat (map item_text xs),
       toolUse := (case last_tool_use xs of None \<Rightarrow> toolUse s | Some t \<Rightarrow> Some t),
       sse_toolResults := sse_toolResults s @ filter is_tool_results xs,
       sse_charts := sse_charts s @ filter is_chart_item xs,
       sse_thinkingContent :=
         sse_thinkingContent s @ concat (List.map_filter (captured_thinking inc) xs),
       sse_hasThinking :=
         (sse_hasThinking s \<or> List.map_filter (captured_thinking inc) xs \<noteq> [])\<rparr>"
proof (induction xs arbitrary: s)
  case Nil
  then show ?case by (simp add: last_tool_use_def)
next
  case (Cons x xs)
  show ?case
    by (cases x)
       (simp_all add: Cons List.map_filter_simps last_tool_use_Cons split: option.splits)
qed

lemma map_filter_append: "List.map_filter f (xs @ ys) = List.map_filter f xs @ List.map_filter f ys"
  by (simp add: List.map_filter_def)

lemma last_tool_use_append:
  "last_tool_use (xs @ ys) = (case last_tool_use ys of None \<Rightarrow> last_tool_use xs | Some t \<Rightarrow> Some t)"
proof (induction xs)
  case Nil
  then show ?case by (simp add: last_tool_use_def split: option.splits)
next
  case (Cons x xs)
  then show ?case by (simp add: last_tool_use_Cons split: option.splits)
qed

lemma stream_event_inv: "stream_inv inc s \<Longrightarrow> stream_inv inc (stream_event parse inc obs e s)"
  by (auto simp: stream_inv_def stream_event_def Let_def fold_stream_route stream_items_def
        map_filter_append split: option.splits)

lemma fold_stream_event_inv:
  "stream_inv inc s \<Longrightarrow> stream_inv inc (fold (stream_event parse inc obs) es s)"
  by (induction es arbitrary: s) (simp_all add: stream_event_inv)

lemma feed_chunks_inv: "stream_inv inc (feed_chunks parse inc obs chunks)"
proof -
  have "stream_inv inc stream_init"
    by (simp add: stream_inv_def stream_init_def stream_items_def List.map_filter_simps)
  then have "stream_inv inc (fold (stream_event parse inc obs)
                (butlast (js_split event_separator (concat (map toString chunks)))) stream_init)"
    by (rule fold_stream_event_inv)
  then show ?thesis
    by (simp add: feed_chunks_split stream_inv_def stream_items_def)
qed

lemma sse_event_inv: "sse_inv inc s \<Longrightarrow> sse_inv inc (sse_event parse inc obs e s)"
  by (auto simp: sse_inv_def sse_event_def Let_def fold_sse_route sse_items_def
        map_filter_append last_tool_use_append split: option.splits)

lemma fold_sse_event_inv:
  "sse_inv inc s \<Longrightarrow> sse_inv inc (fold (sse_event parse inc obs) es s)"
  by (induction es arbitrary: s) (simp_all add: sse_event_inv)

lemma sse_run_inv: "sse_inv inc (sse_run parse inc obs text)"
proof -
  have "sse_inv inc sse_init"
    by (simp add: sse_inv_def sse_init_def sse_items_def List.map_filter_simps last_tool_use_def)
  then show ?thesis
    unfolding sse_run_def by (rule fold_sse_event_inv)
qed

section \<open>Streams without deltas\<close>

lemma trim_processed: "trim ''Query processed successfully.'' = ''Query processed successfully.''"
  by code_simp

lemma format_empty: "formatCortexAgentsResponse exec parse_spec [] = (empty_result, [])"
  by (simp add: formatCortexAgentsResponse_def acc_init_def fallback_summary_def empty_result_def
        trim_processed)

lemma no_deltas_live:
  assumes "emitted (feed_chunks parse inc obs chunks) = []"
  shows "stream_combined (feed_chunks parse inc obs chunks) = [] \<and>
         \<not> hasThinking (feed_chunks parse inc obs chunks)"
  using feed_chunks_inv[of inc parse "obs" chunks] assms
  by (simp add: stream_inv_def stream_items_def stream_combined_def List.map_filter_simps)

lemma no_deltas_buffered:
  assumes "deltas (sse_run parse inc obs sseData) = []"
  shows "sse_combined (sse_run parse inc obs sseData) = []"
  using sse_run_inv[of inc parse "obs" sseData] assms
  by (simp add: sse_inv_def sse_items_def sse_combined_def last_tool_use_def)

lemma call_reaches_body:
  assumes "agent_reachable e" and "http e = HttpResponse st b" and "st < 400"
  shows "fst (callCortexAgentsAPI e obs) = fst (handle_body e obs b)"
  using assms
  by (auto simp: agent_reachable_def callCortexAgentsAPI_def post_request_def Let_def
        split: token_outcome.splits option.splits prod.splits)

lemma query_falls_back:
  "fst (callCortexAgentsAPI e obs) = None \<Longrightarrow>
   fst (queryWithCortexAgents e obs) = Single (fst (fallbackToBasicQuery e))"
  by (auto simp: queryWithCortexAgents_def split: prod.splits)

lemma query_returns_call:
  "fst (callCortexAgentsAPI e obs) = Some r \<Longrightarrow> fst (queryWithCortexAgents e obs) = r"
  by (auto simp: queryWithCortexAgents_def split: prod.splits)

text \<open>
  What each path does with an empty aggregate, when the agent call reaches the HTTP
  request and is answered below status 400. On the live path, a stream that ends with no
  text, no tool item, no chart and no reasoning gives the result with the generated
  summary, no rows, the default insights and an empty SQL text. On the buffered path, a
  text with no text, tool item or chart gives a \<open>null\<close> combined delta, the agent call
  returns \<open>null\<close>, and the query returns the result of the fallback query. A stream
  without deltas has an empty aggregate.
\<close>

theorem empty_aggregate_result:
  assumes "agent_reachable e" and "http e = HttpResponse st b" and "st < 400"
  shows "(\<forall>chunks. b = StreamBody chunks True \<and>
            stream_combined (feed_chunks (JSON_parse_delta e) (INCLUDE_AGENT_THINKING e) obs chunks) = [] \<and>
            thinkingContent (feed_chunks (JSON_parse_delta e) (INCLUDE_AGENT_THINKING e) obs chunks) = []
            \<longrightarrow> fst (queryWithCortexAgents e obs) = Single empty_result) \<and>
         (\<forall>sseData. b = TextBody sseData \<and> str_includes sseData ''event: message.delta'' \<and>
            sse_combined (sse_run (JSON_parse_delta e) (INCLUDE_AGENT_THINKING e) obs sseData) = []
            \<longrightarrow> fst (callCortexAgentsAPI e obs) = None \<and>
                fst (queryWithCortexAgents e obs) = Single (fst (fallbackToBasicQuery e)))"
proof (intro conjI allI impI)
  fix chunks
  assume a: "b = StreamBody chunks True \<and>
            stream_combined (feed_chunks (JSON_parse_delta e) (INCLUDE_AGENT_THINKING e) obs chunks) = [] \<and>
            thinkingContent (feed_chunks (JSON_parse_delta e) (INCLUDE_AGENT_THINKING e) obs chunks) = []"
  then have "fst (handle_body e obs b) = Some (Single empty_result)"
    by (simp add: handle_body_def processStreamingResponse_def on_end_def format_empty Let_def)
  then have "fst (callCortexAgentsAPI e obs) = Some (Single empty_result)"
    using call_reaches_body[OF assms] by simp
  then show "fst (queryWithCortexAgents e obs) = Single empty_result"
    by (rule query_returns_call)
next
  fix sseData
  assume a: "b = TextBody sseData \<and> str_includes sseData ''event: message.delta'' \<and>
            sse_combined (sse_run (JSON_parse_delta e) (INCLUDE_AGENT_THINKING e) obs sseData) = []"
  then have ne: "sseData \<noteq> []" by auto
  from a have "fst (handle_body e obs b) = None"
    using ne by (simp add: handle_body_def parseSSEResponse_def sse_result_def Let_def)
  then show c: "fst (callCortexAgentsAPI e obs) = None"
    using call_reaches_body[OF assms] by simp
  then show "fst (queryWithCortexAgents e obs) = Single (fst (fallbackToBasicQuery e))"
    by (rule query_falls_back)
qed

theorem empty_aggregate_result_witness:
  "agent_reachable env_stream_hollow \<and>
   stream_combined (feed_chunks demo_parse False True [wire [delta_frame empty_payload]]) = [] \<and>
   thinkingContent (feed_chunks demo_parse False True [wire [delta_frame empty_payload]]) = [] \<and>
   fst (queryWithCortexAgents env_stream_hollow True) = Single empty_result \<and>
   agent_reachable env_buffered_hollow \<and>
   str_includes (wire [delta_frame empty_payload]) ''event: message.delta'' \<and>
   sse_combined (sse_run demo_parse False True (wire [delta_frame empty_payload])) = [] \<and>
   fst (callCortexAgentsAPI env_buffered_hollow True) = None \<and>
   fst (queryWithCortexAgents env_buffered_hollow True) =
     Single (fst (fallbackToBasicQuery env_buffered_hollow))"
proof -
  let ?w = "wire [delta_frame empty_payload]"
  have r1: "agent_reachable env_stream_hollow" by code_simp
  have h1: "http env_stream_hollow = HttpResponse 200 (StreamBody [?w] True)"
    by (simp add: env_stream_hollow_def)
  have p1: "JSON_parse_delta env_stream_hollow = demo_parse"
    "INCLUDE_AGENT_THINKING env_stream_hollow = False"
    by (simp_all add: env_stream_hollow_def env_buffered_empty_def)
  have e1: "stream_combined (feed_chunks demo_parse False True [?w]) = []" by code_simp
  have t1: "thinkingContent (feed_chunks demo_parse False True [?w]) = []" by code_simp
  have r2: "agent_reachable env_buffered_hollow" by code_simp
  have h2: "http env_buffered_hollow = HttpResponse 200 (TextBody ?w)"
    by (simp add: env_buffered_hollow_def)
  have p2: "JSON_parse_delta env_buffered_hollow = demo_parse"
    "INCLUDE_AGENT_THINKING env_buffered_hollow = False"
    by (simp_all add: env_buffered_hollow_def env_buffered_empty_def)
  have i2: "str_includes ?w ''event: message.delta''" by code_simp
  have e2: "sse_combined (sse_run demo_parse False True ?w) = []" by code_simp
  have lt: "(200::nat) < 400" by simp
  from empty_aggregate_result[OF r1 h1 lt, of True] e1 t1 p1
  have live: "fst (queryWithCortexAgents env_stream_hollow True) = Single empty_result"
    by simp
  from empty_aggregate_result[OF r2 h2 lt, of True] e2 i2 p2
  have buffered: "fst (callCortexAgentsAPI env_buffered_hollow True) = None \<and>
     fst (queryWithCortexAgents env_buffered_hollow True) =
       Single (fst (fallbackToBasicQuery env_buffered_hollow))"
    by simp
  from r1 e1 t1 live r2 i2 e2 buffered show ?thesis by blast
qed

text \<open>
  C5. An answer below status 400 whose only frame does not parse (no delta), and an
  answer of one delta whose content list is empty: in both the aggregate is empty. When
  the answer is a stream, the query returns the synthesizer's result with the generated
  summary, no rows, the default insights and an empty SQL text. When the same bytes are
  a buffered text, \<open>parseSSEResponse\<close> returns a \<open>null\<close> combined delta, the agent
  call returns \<open>null\<close>, and the query returns the result of the fallback query
  instead.
\<close>

theorem empty_aggregate_paths_diverge:
  "http env_stream_empty = HttpResponse 200 (StreamBody [wire [delta_frame corrupt_payload]] True) \<and>
   emitted (feed_chunks demo_parse False False [wire [delta_frame corrupt_payload]]) = [] \<and>
   fst (queryWithCortexAgents env_stream_empty False) = Single empty_result \<and>
   http env_buffered_empty = HttpResponse 200 (TextBody (wire [delta_frame corrupt_payload])) \<and>
   deltas (sse_run demo_parse False False (wire [delta_frame corrupt_payload])) = [] \<and>
   fst (callCortexAgentsAPI env_buffered_empty False) = None \<and>
   sources (fst (queryWithCortexAgents env_buffered_empty False)) = [fallback_query] \<and>
   http env_stream_hollow = HttpResponse 200 (StreamBody [wire [delta_frame empty_payload]] True) \<and>
   map d_content (emitted (feed_chunks demo_parse False False [wire [delta_frame empty_payload]])) =
     [[]] \<and>
   fst (queryWithCortexAgents env_stream_hollow False) = Single empty_result \<and>
   http env_buffered_hollow = HttpResponse 200 (TextBody (wire [delta_frame empty_payload])) \<and>
   map d_content (deltas (sse_run demo_parse False False (wire [delta_frame empty_payload]))) =
     [[]] \<and>
   fst (callCortexAgentsAPI env_buffered_hollow False) = None \<and>
   sources (fst (queryWithCortexAgents env_buffered_hollow False)) = [fallback_query] \<and>
   sources (Single empty_result) = [cortex_agents_api]"
proof -
  have 1: "http env_stream_empty = HttpResponse 200 (StreamBody [wire [delta_frame corrupt_payload]] True)"
    by (simp add: env_stream_empty_def)
  have 2: "emitted (feed_chunks demo_parse False False [wire [delta_frame corrupt_payload]]) = []"
    by code_simp
  have 3: "fst (queryWithCortexAgents env_stream_empty False) = Single empty_result"
    by code_simp
  have 4: "http env_buffered_empty = HttpResponse 200 (TextBody (wire [delta_frame corrupt_payload]))"
    by (simp add: env_buffered_empty_def)
  have 5: "deltas (sse_run demo_parse False False (wire [delta_frame corrupt_payload])) = []"
    by code_simp
  have 6: "fst (callCortexAgentsAPI env_buffered_empty False) = None"
    by code_simp
  have 7: "sources (fst (queryWithCortexAgents env_buffered_empty False)) = [fallback_query]"
    by code_simp
  have 8: "http env_stream_hollow = HttpResponse 200 (StreamBody [wire [delta_frame empty_payload]] True)"
    by (simp add: env_stream_hollow_def)
  have 9: "map d_content (emitted (feed_chunks demo_parse False False [wire [delta_frame empty_payload]])) =
     [[]]"
    by code_simp
  have 10: "fst (queryWithCortexAgents env_stream_hollow False) = Single empty_result"
    by code_simp
  have 11: "http env_buffered_hollow = HttpResponse 200 (TextBody (wire [delta_frame empty_payload]))"
    by (simp add: env_buffered_hollow_def)
  have 12: "map d_content (deltas (sse_run demo_parse False False (wire [delta_frame empty_payload]))) =
     [[]]"
    by code_simp
  have 13: "fst (callCortexAgentsAPI env_buffered_hollow False) = None"
    by code_simp
  have 14: "sources (fst (queryWithCortexAgents env_buffered_hollow False)) = [fallback_query]"
    by code_simp
  have 15: "sources (Single empty_result) = [cortex_agents_api]"
    by (simp add: empty_result_def)
  from 1 2 3 4 5 6 7 8 9 10 11 12 13 14 15 show ?thesis by blast
qed

section \<open>Chart items\<close>

lemma format_walk_append:
  "format_walk parse_spec (xs @ ys) a =
     (case format_walk parse_spec xs a of
        None \<Rightarrow> None
      | Some a' \<Rightarrow> format_walk parse_spec ys a')"
  by (induction xs arbitrary: a) (auto split: option.splits)

lemma tool_result_step_charts: "acc_charts (tool_result_step r a) = acc_charts a"
  by (cases "(r, a)" rule: tool_result_step.cases) (auto simp: Let_def)

lemma fold_tool_result_step_charts: "acc_charts (fold tool_result_step rs a) = acc_charts a"
  by (induction rs arbitrary: a) (simp_all add: tool_result_step_charts)

lemma format_step_charts:
  "format_step parse_spec x a = Some a' \<Longrightarrow> \<exists>later. acc_charts a' = acc_charts a @ later"
  by (cases "(parse_spec, x, a)" rule: format_step.cases)
     (auto simp: fold_tool_result_step_charts split: if_splits option.splits)

lemma format_walk_charts:
  "format_walk parse_spec xs a = Some a' \<Longrightarrow> \<exists>later. acc_charts a' = acc_charts a @ later"
proof (induction xs arbitrary: a)
  case Nil
  then show ?case by simp
next
  case (Cons x xs)
  then obtain a1 where s: "format_step parse_spec x a = Some a1"
    and w: "format_walk parse_spec xs a1 = Some a'"
    by (auto split: option.splits)
  from format_step_charts[OF s] obtain l1 where "acc_charts a1 = acc_charts a @ l1" by blast
  moreover from Cons.IH[OF w] obtain l2 where "acc_charts a' = acc_charts a1 @ l2" by blast
  ultimately show ?case by simp
qed

lemma execute_sql_charts: "acc_charts (execute_sql exec a) = acc_charts a"
  by (simp add: execute_sql_def split: sum.splits)

lemma format_result_charts:
  "format_walk parse_spec content acc_init = Some a \<Longrightarrow>
   result_charts (fst (formatCortexAgentsResponse exec parse_spec content)) = Some (acc_charts a)"
  by (simp add: formatCortexAgentsResponse_def Let_def execute_sql_charts)

text \<open>
  C8 (as amended). After the walk has passed the items before it, a chart item with a
  non-empty \<open>chart_spec\<close> string that parses as JSON appends the entry
  \<open>{type: 'vega-lite', spec}\<close> to the charts and the note
  \<open>' Chart visualization included.'\<close> to the insights, and the entry stays in the charts
  of the result, after those of earlier items. A \<open>chart_spec\<close> that does not parse
  ends the synthesis in the formatting-failed result.
\<close>

theorem chart_item_appends_entry:
  assumes "format_walk parse_spec before acc_init = Some a"
  shows "(\<forall>chart_spec j. chart_spec \<noteq> [] \<and> parse_spec chart_spec = Some j \<longrightarrow>
            format_walk parse_spec (before @ [Chart (Some chart_spec)]) acc_init =
              Some (a\<lparr>acc_charts := acc_charts a @ [\<lparr>chart_type = ''vega-lite'', spec = j\<rparr>],
                      acc_insights := acc_insights a @ '' Chart visualization included.''\<rparr>) \<and>
            (\<forall>rest a'. format_walk parse_spec (before @ [Chart (Some chart_spec)] @ rest) acc_init
                         = Some a' \<longrightarrow>
               (\<exists>later. result_charts (fst (formatCortexAgentsResponse exec parse_spec
                                              (before @ [Chart (Some chart_spec)] @ rest))) =
                  Some (acc_charts a @ [\<lparr>chart_type = ''vega-lite'', spec = j\<rparr>] @ later)))) \<and>
         (\<forall>chart_spec rest. chart_spec \<noteq> [] \<and> parse_spec chart_spec = None \<longrightarrow>
            formatCortexAgentsResponse exec parse_spec (before @ [Chart (Some chart_spec)] @ rest) =
              (formatting_failed, []))"
proof (intro conjI allI impI)
  fix chart_spec j
  assume c: "chart_spec \<noteq> [] \<and> parse_spec chart_spec = Some j"
  with assms show "format_walk parse_spec (before @ [Chart (Some chart_spec)]) acc_init =
              Some (a\<lparr>acc_charts := acc_charts a @ [\<lparr>chart_type = ''vega-lite'', spec = j\<rparr>],
                      acc_insights := acc_insights a @ '' Chart visualization included.''\<rparr>)"
    by (simp add: format_walk_append)
next
  fix chart_spec j rest a'
  assume c: "chart_spec \<noteq> [] \<and> parse_spec chart_spec = Some j"
    and w: "format_walk parse_spec (before @ [Chart (Some chart_spec)] @ rest) acc_init = Some a'"
  let ?a1 = "a\<lparr>acc_charts := acc_charts a @ [\<lparr>chart_type = ''vega-lite'', spec = j\<rparr>],
                      acc_insights := acc_insights a @ '' Chart visualization included.''\<rparr>"
  from w c assms have "format_walk parse_spec rest ?a1 = Some a'"
    by (simp add: format_walk_append)
  from format_walk_charts[OF this] obtain later where
    "acc_charts a' = acc_charts a @ [\<lparr>chart_type = ''vega-lite'', spec = j\<rparr>] @ later"
    by auto
  with format_result_charts[OF w, of exec]
  show "\<exists>later. result_charts (fst (formatCortexAgentsResponse exec parse_spec
                                              (before @ [Chart (Some chart_spec)] @ rest))) =
                  Some (acc_charts a @ [\<lparr>chart_type = ''vega-lite'', spec = j\<rparr>] @ later)"
    by auto
next
  fix chart_spec rest
  assume c: "chart_spec \<noteq> [] \<and> parse_spec chart_spec = None"
  with assms have "format_walk parse_spec (before @ [Chart (Some chart_spec)] @ rest) acc_init = None"
    by (simp add: format_walk_append)
  then show "formatCortexAgentsResponse exec parse_spec (before @ [Chart (Some chart_spec)] @ rest) =
              (formatting_failed, [])"
    by (simp add: formatCortexAgentsResponse_def)
qed

theorem chart_item_appends_entry_witness:
  "format_walk demo_spec [Text (Some ''Sales'')] acc_init =
     Some (acc_init\<lparr>acc_summary := ''Sales''\<rparr>) \<and>
   bar_spec \<noteq> [] \<and> demo_spec bar_spec = Some (JObj [(''mark'', JStr ''bar'')]) \<and>
   format_walk demo_spec ([Text (Some ''Sales'')] @ [Chart (Some bar_spec)]) acc_init =
     Some \<lparr>acc_summary = ''Sales'', acc_data = [],
           acc_insights = ''Response generated by Snowflake Cortex Agents Chart visualization included.'',
           acc_charts = [\<lparr>chart_type = ''vega-lite'', spec = JObj [(''mark'', JStr ''bar'')]\<rparr>],
           acc_sql = []\<rparr> \<and>
   ''{'' \<noteq> [] \<and> demo_spec ''{'' = None \<and>
   formatCortexAgentsResponse one_row_exec demo_spec ([Text (Some ''Sales'')] @ [Chart (Some ''{'')] @ []) =
     (formatting_failed, [])"
proof -
  have w: "format_walk demo_spec [Text (Some ''Sales'')] acc_init =
     Some (acc_init\<lparr>acc_summary := ''Sales''\<rparr>)"
    by (simp add: acc_init_def)
  have b: "bar_spec \<noteq> [] \<and> demo_spec bar_spec = Some (JObj [(''mark'', JStr ''bar'')])"
    by (simp add: bar_spec_def demo_spec_def)
  have n: "''{'' \<noteq> [] \<and> demo_spec ''{'' = None"
    by (simp add: bar_spec_def demo_spec_def)
  note th = chart_item_appends_entry[OF w, of one_row_exec]
  from th b have 1: "format_walk demo_spec ([Text (Some ''Sales'')] @ [Chart (Some bar_spec)]) acc_init =
     Some (acc_init\<lparr>acc_summary := ''Sales'',
             acc_charts := [\<lparr>chart_type = ''vega-lite'', spec = JObj [(''mark'', JStr ''bar'')]\<rparr>],
             acc_insights := acc_insights acc_init @ '' Chart visualization included.''\<rparr>)"
    by (simp add: acc_init_def)
  from th n have 2: "formatCortexAgentsResponse one_row_exec demo_spec
       ([Text (Some ''Sales'')] @ [Chart (Some ''{'')] @ []) = (formatting_failed, [])"
    by blast
  from w b n 1 2 show ?thesis by (simp add: acc_init_def)
qed

text \<open>
  The claim as stated fails: the entry's type is \<open>'vega-lite'\<close>, not
  \<open>'chart-spec'\<close>, and a chart item whose string does not parse adds no entry.
\<close>

theorem chart_entry_type_counterexample:
  "result_charts (fst (formatCortexAgentsResponse one_row_exec demo_spec [Chart (Some bar_spec)])) =
     Some [\<lparr>chart_type = ''vega-lite'', spec = JObj [(''mark'', JStr ''bar'')]\<rparr>] \<and>
   result_charts (fst (formatCortexAgentsResponse one_row_exec demo_spec [Chart (Some bar_spec)])) \<noteq>
     Some [\<lparr>chart_type = ''chart-spec'', spec = JObj [(''mark'', JStr ''bar'')]\<rparr>] \<and>
   result_charts (fst (formatCortexAgentsResponse one_row_exec demo_spec [Chart (Some ''{'')])) =
     Some []"
  by (simp add: formatCortexAgentsResponse_def acc_init_def demo_spec_def bar_spec_def
        formatting_failed_def Let_def)

section \<open>The two decoders compared\<close>

lemma stream_event_notes:
  "Completion n \<notin> set (notified s) \<Longrightarrow>
   Completion n \<notin> set (notified (stream_event parse inc obs e s))"
  by (simp add: stream_event_def Let_def fold_stream_route split: option.splits)

lemma fold_stream_event_notes:
  "Completion n \<notin> set (notified s) \<Longrightarrow>
   Completion n \<notin> set (notified (fold (stream_event parse inc obs) es s))"
  by (induction es arbitrary: s) (simp_all add: stream_event_notes)

lemma live_never_completes:
  "Completion n \<notin> set (notified (feed_chunks parse inc obs chunks))"
proof -
  have "Completion n \<notin> set (notified stream_init)" by (simp add: stream_init_def)
  then show ?thesis
    by (simp add: feed_chunks_split fold_stream_event_notes)
qed

text \<open>
  C6. On the stream of the specification's example (a frame cut inside its payload, then
  an \<open>event: done\<close>), with an observer supplied: neither path turns the completion event
  into a delta; the live path calls the observer once, with the delta, and never with a
  completion record; the buffered path, on the same bytes, calls it with the delta and
  then with the completion record carrying the count 1. More generally, whatever the
  chunks, the parser and the flags, the live path never calls the observer with a
  completion record.
\<close>

theorem live_path_sends_no_completion:
  "notified (feed_chunks demo_parse False True done_chunks) =
     [DeltaNote \<lparr>d_index = 1, d_content = [Text (Some ''Hello'')], d_id = Some ''a'',
                 d_object = None\<rparr>] \<and>
   snd (processStreamingResponse demo_parse no_spec one_row_exec False True done_chunks) =
     notified (feed_chunks demo_parse False True done_chunks) \<and>
   snd (parseSSEResponse demo_parse False True (concat done_chunks)) =
     [DeltaNote \<lparr>d_index = 1, d_content = [Text (Some ''Hello'')], d_id = Some ''a'',
                 d_object = None\<rparr>,
      Completion 1] \<and>
   Completion n \<notin>
     set (snd (processStreamingResponse parse parse_spec exec inc observed chunks))"
proof -
  have 1: "notified (feed_chunks demo_parse False True done_chunks) =
     [DeltaNote \<lparr>d_index = 1, d_content = [Text (Some ''Hello'')], d_id = Some ''a'',
                 d_object = None\<rparr>]"
    by code_simp
  have 2: "snd (processStreamingResponse demo_parse no_spec one_row_exec False True done_chunks) =
     notified (feed_chunks demo_parse False True done_chunks)"
    by (simp add: processStreamingResponse_def Let_def)
  have 3: "snd (parseSSEResponse demo_parse False True (concat done_chunks)) =
     [DeltaNote \<lparr>d_index = 1, d_content = [Text (Some ''Hello'')], d_id = Some ''a'',
                 d_object = None\<rparr>,
      Completion 1]"
    by code_simp
  have 4: "Completion n \<notin>
     set (snd (processStreamingResponse parse parse_spec exec inc observed chunks))"
    by (simp add: processStreamingResponse_def Let_def live_never_completes)
  from 1 2 3 4 show ?thesis by blast
qed

text \<open>
  C1. On a stream whose one delta carries two \<open>tool_use\<close> items, the first of them
  by the tool \<open>DataAnalyst\<close>: the live path puts both items into the combined delta, the
  buffered path only the last; the synthesized results differ in their insights.
\<close>

theorem paths_diverge_on_tool_use:
  "stream_combined (feed_chunks demo_parse False False [tools_stream]) =
     [ToolUse (Some ''DataAnalyst'') JNull, ToolUse (Some ''Search'') JNull] \<and>
   combinedDelta (fst (parseSSEResponse demo_parse False False tools_stream)) =
     Some [ToolUse (Some ''Search'') JNull] \<and>
   fst (handle_body env_buffered_empty False (StreamBody [tools_stream] True)) =
     Some (Single (empty_result\<lparr>insights := Some ''Generated SQL query using Cortex Agents''\<rparr>)) \<and>
   fst (handle_body env_buffered_empty False (TextBody tools_stream)) =
     Some (Single empty_result)"
proof -
  have 1: "stream_combined (feed_chunks demo_parse False False [tools_stream]) =
     [ToolUse (Some ''DataAnalyst'') JNull, ToolUse (Some ''Search'') JNull]"
    by code_simp
  have 2: "combinedDelta (fst (parseSSEResponse demo_parse False False tools_stream)) =
     Some [ToolUse (Some ''Search'') JNull]"
    by code_simp
  have 3: "fst (handle_body env_buffered_empty False (StreamBody [tools_stream] True)) =
     Some (Single (empty_result\<lparr>insights := Some ''Generated SQL query using Cortex Agents''\<rparr>))"
    by code_simp
  have 4: "fst (handle_body env_buffered_empty False (TextBody tools_stream)) =
     Some (Single empty_result)"
    by code_simp
  from 1 2 3 4 show ?thesis by blast
qed

section \<open>CSV: writing and reading back\<close>

lemma js_split_char_none: "c \<notin> set s \<Longrightarrow> js_split [c] s = [s]"
  by (induction s) auto

lemma js_split_char_piece:
  "c \<notin> set x \<Longrightarrow> js_split [c] (x @ c # r) = x # js_split [c] r"
  by (induction x) auto

lemma js_split_join:
  "xs \<noteq> [] \<Longrightarrow> \<forall>x\<in>set xs. c \<notin> set x \<Longrightarrow> js_split [c] (join [c] xs) = xs"
proof (induction "[c]" xs rule: join.induct)
  case 1
  then show ?case by simp
next
  case (2 x)
  then show ?case by (simp add: js_split_char_none)
next
  case (3 x y ys)
  then show ?case by (simp add: js_split_char_piece)
qed

lemma join_Cons: "ys \<noteq> [] \<Longrightarrow> join sep (x # ys) = x @ sep @ join sep ys"
  by (cases ys) simp_all

lemma set_join: "set (join sep xs) \<subseteq> set sep \<union> \<Union> (set ` set xs)"
  by (induction sep xs rule: join.induct) auto

lemma fold_add_column_known: "set keys \<subseteq> set cols \<Longrightarrow> fold add_column keys cols = cols"
  by (induction keys arbitrary: cols) (auto simp: add_column_def)

lemma fold_add_column_new:
  "distinct (cols @ keys) \<Longrightarrow> fold add_column keys cols = cols @ keys"
  by (induction keys arbitrary: cols) (auto simp: add_column_def)

lemma fold_rows_known:
  "\<forall>row\<in>set rs. set (map fst row) \<subseteq> set cols \<Longrightarrow>
   fold (\<lambda>row cols. fold add_column (map fst row) cols) rs cols = cols"
  by (induction rs) (simp_all add: fold_add_column_known)

lemma all_columns_uniform:
  assumes "rows \<noteq> []" and "uniform_rows rows"
  shows "all_columns rows = map fst (hd rows)"
proof -
  obtain r rs where rows: "rows = r # rs" using assms(1) by (cases rows) auto
  from assms(2) rows have d: "distinct (map fst r)"
    and sub: "\<forall>row\<in>set rs. set (map fst row) \<subseteq> set (map fst r)"
    by (auto simp: uniform_rows_def list_all_iff)
  have "fold add_column (map fst r) [] = map fst r"
    using fold_add_column_new[of "[]" "map fst r"] d by simp
  then show ?thesis
    using fold_rows_known[OF sub] by (simp add: all_columns_def rows)
qed

lemma escape_plain: "plain_field s \<Longrightarrow> escapeCSVField s = s"
  by (simp add: plain_field_def escapeCSVField_def)

lemma plain_field_Nil: "plain_field []"
  by (simp add: plain_field_def trim_Nil)

lemma displayValue_plain:
  "plain_row row \<Longrightarrow> col \<in> set (map fst row) \<Longrightarrow> plain_field (displayValue row col)"
proof -
  assume p: "plain_row row" and c: "col \<in> set (map fst row)"
  then obtain v where v: "map_of row col = Some v"
    by (metis domD dom_map_of_conv_image_fst set_map)
  then have "(col, v) \<in> set row" by (rule map_of_SomeD)
  with p have "plain_cell v" by (auto simp: plain_row_def list_all_iff)
  with v show ?thesis by (cases v) (simp_all add: displayValue_def)
qed

lemma reversed_nonempty: "[] \<notin> set (map rev white_space)"
  by (simp add: white_space_def)

lemma newline_inside: "\<forall>w\<in>set white_space. newline \<notin> set (tl w)"
  by (simp add: white_space_def newline_def)

lemma newline_inside_reversed: "\<forall>w\<in>set (map rev white_space). newline \<notin> set (tl w)"
  by (simp add: white_space_def newline_def)

lemma comma_inside: "\<forall>w\<in>set white_space. CHR '','' \<notin> set (tl w)"
  by (simp add: white_space_def)

lemma comma_inside_reversed: "\<forall>w\<in>set (map rev white_space). CHR '','' \<notin> set (tl w)"
  by (simp add: white_space_def)

lemma comma_head: "\<forall>w\<in>set white_space. hd w \<noteq> CHR '',''"
  by (simp add: white_space_def)

lemma comma_head_reversed: "\<forall>w\<in>set (map rev white_space). hd w \<noteq> CHR '',''"
  by (simp add: white_space_def)

lemma newline_run: "char_len (map rev white_space) (newline # s) = 1"
  by (simp add: char_len_def white_space_def newline_def)

lemma trim_line:
  assumes "s \<noteq> []" and "char_len white_space s = 0"
    and "char_len (map rev white_space) (rev s) = 0"
  shows "trim (s @ [newline]) = s"
proof -
  have "char_len white_space (s @ [newline]) = 0"
    using char_len_append[OF white_space_nonempty assms(2,1) newline_inside, of "[]"] .
  then have 1: "strip_class white_space (s @ [newline]) = s @ [newline]"
    by (rule strip_class_none)
  have "strip_class (map rev white_space) (newline # rev s) =
        strip_class (map rev white_space) (rev s)"
    using strip_class_some[of "map rev white_space" "newline # rev s"] by (simp add: newline_run)
  then have 2: "strip_class (map rev white_space) (rev (s @ [newline])) = rev s"
    using assms(3) by (simp add: strip_class_none)
  show ?thesis by (simp only: trim_def 1 2 rev_rev_ident)
qed

lemma join_ends:
  "\<forall>f\<in>set fs. trim f = f \<Longrightarrow> join '','' fs \<noteq> [] \<Longrightarrow>
   char_len white_space (join '','' fs) = 0 \<and>
   char_len (map rev white_space) (rev (join '','' fs)) = 0"
proof (induction "'',''" fs rule: join.induct)
  case 1
  then show ?case by simp
next
  case (2 x)
  then show ?case by (simp add: trim_fixed)
next
  case (3 x y ys)
  let ?J = "join '','' (y # ys)"
  from 3(2) have x: "char_len white_space x = 0" by (simp add: trim_fixed)
  have hd: "char_len white_space (x @ CHR '','' # ?J) = 0"
  proof (cases "x = []")
    case True
    then show ?thesis using char_len_head[OF white_space_nonempty comma_head] by simp
  next
    case False
    show ?thesis by (rule char_len_append[OF white_space_nonempty x False comma_inside])
  qed
  have last: "char_len (map rev white_space) (rev ?J @ CHR '','' # rev x) = 0"
  proof (cases "?J = []")
    case True
    then show ?thesis using char_len_head[OF reversed_nonempty comma_head_reversed] by simp
  next
    case False
    with 3 have "char_len (map rev white_space) (rev ?J) = 0" by simp
    moreover from False have "rev ?J \<noteq> []" by simp
    ultimately show ?thesis
      using char_len_append[OF reversed_nonempty _ _ comma_inside_reversed] by blast
  qed
  from hd last show ?case by simp
qed

lemma unlines_join:
  "ls \<noteq> [] \<Longrightarrow> concat (map (\<lambda>l. l @ [newline]) ls) = join [newline] ls @ [newline]"
  by (induction "[newline]" ls rule: join.induct) simp_all

lemma lead_join_lines:
  "ls \<noteq> [] \<Longrightarrow> hd ls \<noteq> [] \<Longrightarrow> char_len white_space (hd ls) = 0 \<Longrightarrow>
   char_len white_space (join [newline] ls) = 0"
proof (induction "[newline]" ls rule: join.induct)
  case 1
  then show ?case by simp
next
  case (2 x)
  then show ?case by simp
next
  case (3 x y ys)
  then show ?case
    using char_len_append[OF white_space_nonempty _ _ newline_inside, of x] by simp
qed

lemma trail_join_lines:
  "ls \<noteq> [] \<Longrightarrow> last ls \<noteq> [] \<Longrightarrow> char_len (map rev white_space) (rev (last ls)) = 0 \<Longrightarrow>
   char_len (map rev white_space) (rev (join [newline] ls)) = 0 \<and> join [newline] ls \<noteq> []"
proof (induction "[newline]" ls rule: join.induct)
  case 1
  then show ?case by simp
next
  case (2 x)
  then show ?case by simp
next
  case (3 x y ys)
  let ?J = "join [newline] (y # ys)"
  from 3 have J: "char_len (map rev white_space) (rev ?J) = 0" "?J \<noteq> []" by simp_all
  then have "rev ?J \<noteq> []" by simp
  with J(1) have "char_len (map rev white_space) (rev ?J @ newline # rev x) = 0"
    using char_len_append[OF reversed_nonempty _ _ newline_inside_reversed] by blast
  then show ?case by simp
qed

lemma trim_lines:
  assumes "ls \<noteq> []" and "hd ls \<noteq> []" and "char_len white_space (hd ls) = 0"
    and "last ls \<noteq> []" and "char_len (map rev white_space) (rev (last ls)) = 0"
  shows "trim (concat (map (\<lambda>l. l @ [newline]) ls)) = join [newline] ls"
proof -
  have "char_len white_space (join [newline] ls) = 0"
    using lead_join_lines assms by blast
  moreover have "char_len (map rev white_space) (rev (join [newline] ls)) = 0 \<and>
                 join [newline] ls \<noteq> []"
    using trail_join_lines assms by blast
  ultimately show ?thesis
    by (simp add: unlines_join[OF assms(1)] trim_line)
qed

lemma plain_join_no_newline:
  "\<forall>f\<in>set fs. plain_field f \<Longrightarrow> newline \<notin> set (join '','' fs)"
proof
  assume p: "\<forall>f\<in>set fs. plain_field f" and n: "newline \<in> set (join '','' fs)"
  from n set_join[of "'',''" fs] have "newline \<in> set '','' \<or> (\<exists>f\<in>set fs. newline \<in> set f)"
    by auto
  with p show False by (auto simp: plain_field_def newline_def)
qed

lemma csv_fields_join:
  assumes "fs \<noteq> []" and "\<forall>f\<in>set fs. plain_field f"
  shows "csv_fields (join '','' fs) = fs"
proof -
  from assms(2) have "\<forall>f\<in>set fs. CHR '','' \<notin> set f" by (simp add: plain_field_def)
  then have "js_split '','' (join '','' fs) = fs"
    using js_split_join[OF assms(1), of "CHR '',''"] by simp
  moreover have "map (\<lambda>v. filter (\<lambda>c. c \<noteq> CHR 0x22) (trim v)) fs = fs"
  proof (rule map_idI)
    fix f assume "f \<in> set fs"
    with assms(2) have "trim f = f" and "\<forall>c\<in>set f. c \<noteq> CHR 0x22"
      by (auto simp: plain_field_def)
    then show "filter (\<lambda>c. c \<noteq> CHR 0x22) (trim f) = f" by simp
  qed
  ultimately show ?thesis by (simp add: csv_fields_def)
qed

lemma map_of_insert_key:
  "k \<notin> fst ` set r \<Longrightarrow> map_of (insert_key k v r) = (map_of r)(k \<mapsto> v)"
proof (induction r)
  case Nil
  then show ?case by simp
next
  case (Cons e r)
  obtain k' v' where e: "e = (k', v')" by (cases e)
  with Cons.prems have ne: "k' \<noteq> k" and rest: "k \<notin> fst ` set r" by auto
  from Cons.IH[OF rest] have IH: "map_of (insert_key k v r) = (map_of r)(k \<mapsto> v)" .
  have a: "map_of ((k', v') # insert_key k v r) = (map_of ((k', v') # r))(k \<mapsto> v)"
    using IH ne by (auto simp: fun_upd_def)
  have b: "map_of ((k, v) # (k', v') # r) = (map_of ((k', v') # r))(k \<mapsto> v)"
    by simp
  have "insert_key k v ((k', v') # r) = (k', v') # insert_key k v r \<or>
        insert_key k v ((k', v') # r) = (k, v) # (k', v') # r"
    by simp
  then show ?case
    unfolding e using a b by metis
qed

lemma map_of_replace:
  "map_of (map (\<lambda>(k', v'). if k' = k then (k', v) else (k', v')) r) =
     (if k \<in> fst ` set r then (map_of r)(k \<mapsto> v) else map_of r)"
  by (induction r) (auto simp: fun_upd_twist)

lemma map_of_obj_set: "k \<noteq> ''__proto__'' \<Longrightarrow> map_of (obj_set k v r) = (map_of r)(k \<mapsto> v)"
  by (simp add: obj_set_def map_of_replace map_of_insert_key)

lemma fold_obj_set:
  "distinct ks \<Longrightarrow> ''__proto__'' \<notin> set ks \<Longrightarrow> n + length ks = length vs \<Longrightarrow>
   map_of (fold (\<lambda>(index, header) row. obj_set header (CStr (value_at vs index)) row)
             (enumerate n ks) acc) =
   map_of acc ++ map_of (zip ks (map CStr (drop n vs)))"
proof (induction ks arbitrary: n acc)
  case Nil
  then show ?case by simp
next
  case (Cons k ks)
  let ?acc = "obj_set k (CStr (value_at vs n)) acc"
  let ?m = "map_of (zip ks (map CStr (drop (Suc n) vs)))"
  from Cons.prems have d: "distinct ks" and pr: "''__proto__'' \<notin> set ks"
    and len: "Suc n + length ks = length vs" and k: "k \<noteq> ''__proto__''" and knew: "k \<notin> set ks"
    by auto
  from Cons.prems have n: "n < length vs" by simp
  then have dr: "drop n vs = vs ! n # drop (Suc n) vs" by (simp add: Cons_nth_drop_Suc)
  have acc: "map_of ?acc = (map_of acc)(k \<mapsto> CStr (vs ! n))"
    using k n by (simp add: map_of_obj_set value_at_def)
  have "k \<notin> dom ?m"
    using knew by (metis dom_map_of_conv_image_fst set_zip_leftD imageE prod.collapse)
  then have sw: "(map_of acc)(k \<mapsto> CStr (vs ! n)) ++ ?m = (map_of acc ++ ?m)(k \<mapsto> CStr (vs ! n))"
    by (metis map_add_upd_left)
  have z: "map_of (zip (k # ks) (map CStr (drop n vs))) = ?m(k \<mapsto> CStr (vs ! n))"
    unfolding dr by simp
  have "map_of (fold (\<lambda>(index, header) row. obj_set header (CStr (value_at vs index)) row)
          (enumerate n (k # ks)) acc) =
        map_of (fold (\<lambda>(index, header) row. obj_set header (CStr (value_at vs index)) row)
          (enumerate (Suc n) ks) ?acc)"
    by simp
  also have "\<dots> = map_of ?acc ++ ?m"
    by (rule Cons.IH[OF d pr len])
  also have "\<dots> = (map_of acc ++ ?m)(k \<mapsto> CStr (vs ! n))"
    unfolding acc sw ..
  also have "\<dots> = map_of acc ++ (?m(k \<mapsto> CStr (vs ! n)))"
    by (rule map_add_upd[symmetric])
  finally show ?case
    unfolding z .
qed

lemma map_of_zip_map:
  "map_of (zip ks (map f ks)) = (\<lambda>k. if k \<in> set ks then Some (f k) else None)"
  by (induction ks) auto

lemma rebuilt_row:
  assumes "distinct (map fst row)" and "set (map fst row) = set ks" and "plain_row row"
  shows "map_of (zip ks (map CStr (map (displayValue row) ks))) = map_of row"
proof
  fix k
  show "map_of (zip ks (map CStr (map (displayValue row) ks))) k = map_of row k"
  proof (cases "k \<in> set ks")
    case True
    with assms(2) obtain v where v: "map_of row k = Some v"
      by (metis domD dom_map_of_conv_image_fst set_map)
    then have "(k, v) \<in> set row" by (rule map_of_SomeD)
    with assms(3) have "plain_cell v" by (auto simp: plain_row_def list_all_iff)
    then obtain s where "v = CStr s" by (cases v) auto
    with v have "CStr (displayValue row k) = v" by (simp add: displayValue_def)
    with True v show ?thesis
      using map_of_zip_map[of ks "\<lambda>k. CStr (displayValue row k)"] by (simp add: comp_def)
  next
    case False
    with assms(2) have "map_of row k = None"
      by (metis domIff dom_map_of_conv_image_fst set_map)
    with False show ?thesis
      using map_of_zip_map[of ks "\<lambda>k. CStr (displayValue row k)"] by (simp add: comp_def)
  qed
qed

lemma generateCSV_lines:
  assumes "rows \<noteq> []" and "all_columns rows \<noteq> []"
  shows "generateCSV rows =
           concat (map (\<lambda>l. l @ [newline])
                     (header_line rows # map (csv_line (all_columns rows)) rows))"
  using assms
  by (simp add: generateCSV_def header_line_def csv_line_def Let_def comp_def)

lemma parse_lines:
  assumes "ls = h # l # others"
    and "js_split [newline] (trim txt) = ls"
  shows "parseCSVToJSON (Some txt) =
           map (\<lambda>line.
                  fold (\<lambda>(index, header) row.
                          obj_set header (CStr (value_at (csv_fields line) index)) row)
                    (enumerate 0 (csv_fields h)) [])
             (l # others)"
  using assms by (simp add: parseCSVToJSON_def Let_def)

text \<open>
  C9 (as amended). For a non-empty sequence of row-maps that all have the keys of the
  first row, none of them the key \<open>__proto__\<close>, whose values are all strings, whose
  keys and values contain no comma, double quote, line feed or carriage return and have
  no white space at either end, and whose header line and last data line are not empty:
  reading the text of \<open>generateCSV\<close> back with \<open>parseCSVToJSON\<close> gives the original
  row-maps.
\<close>

theorem csv_round_trip:
  assumes ne: "rows \<noteq> []"
    and uni: "uniform_rows rows"
    and plain: "list_all plain_row rows"
    and hdr: "header_line rows \<noteq> []"
    and lst: "csv_line (all_columns rows) (last rows) \<noteq> []"
  shows "map map_of (parseCSVToJSON (Some (generateCSV rows))) = map map_of rows"
proof -
  let ?ks = "map fst (hd rows)"
  let ?vals = "\<lambda>row. map (displayValue row) ?ks"
  let ?H = "header_line rows"
  let ?ls = "?H # map (csv_line ?ks) rows"
  have cols: "all_columns rows = ?ks" using ne uni by (rule all_columns_uniform)
  from ne have hd_in: "hd rows \<in> set rows" by simp
  with uni have dist: "distinct ?ks" by (auto simp: uniform_rows_def list_all_iff)
  from hd_in plain have "plain_row (hd rows)" by (simp add: list_all_iff)
  then have ks_plain: "\<forall>k\<in>set ?ks. plain_field k" and ks_proto: "''__proto__'' \<notin> set ?ks"
    by (auto simp: plain_row_def list_all_iff)
  then have esc: "map escapeCSVField ?ks = ?ks" by (simp add: escape_plain map_idI)
  then have H: "?H = join '','' ?ks" by (simp only: header_line_def cols)
  with hdr have ks_ne: "?ks \<noteq> []" by auto
  have keys: "set (map fst row) = set ?ks" if "row \<in> set rows" for row
    using that uni by (auto simp: uniform_rows_def list_all_iff)
  have vals_plain: "\<forall>f\<in>set (?vals row). plain_field f" if "row \<in> set rows" for row
  proof -
    from that plain have "plain_row row" by (simp add: list_all_iff)
    then show ?thesis using keys[OF that] displayValue_plain[of row] by auto
  qed
  have line: "csv_line ?ks row = join '','' (?vals row)" if "row \<in> set rows" for row
  proof -
    have "map (\<lambda>col. escapeCSVField (displayValue row col)) ?ks = ?vals row"
      using vals_plain[OF that] by (simp add: escape_plain)
    then show ?thesis by (simp only: csv_line_def)
  qed
  have gen: "generateCSV rows = concat (map (\<lambda>l. l @ [newline]) ?ls)"
    using generateCSV_lines[OF ne] ks_ne cols by simp
  have last_ls: "last ?ls = csv_line ?ks (last rows)" using ne by (simp add: last_map)
  have last_in: "last rows \<in> set rows" using ne by simp
  have ends_H: "char_len white_space ?H = 0 \<and> char_len (map rev white_space) (rev ?H) = 0"
    using join_ends[of ?ks] ks_plain hdr H by (simp add: plain_field_def)
  have ends_L: "char_len white_space (csv_line ?ks (last rows)) = 0 \<and>
                char_len (map rev white_space) (rev (csv_line ?ks (last rows))) = 0"
    using join_ends[of "?vals (last rows)"] vals_plain[OF last_in] lst line[OF last_in] cols
    by (simp add: plain_field_def)
  have tr: "trim (generateCSV rows) = join [newline] ?ls"
    unfolding gen
    using trim_lines[of ?ls] hdr lst ends_H ends_L last_ls cols by simp
  have no_nl: "\<forall>l\<in>set ?ls. newline \<notin> set l"
  proof
    fix l assume "l \<in> set ?ls"
    then consider "l = ?H" | row where "row \<in> set rows" "l = csv_line ?ks row" by auto
    then show "newline \<notin> set l"
    proof cases
      case 1
      then show ?thesis using plain_join_no_newline[OF ks_plain] H by simp
    next
      case 2
      then show ?thesis using plain_join_no_newline[OF vals_plain] line by simp
    qed
  qed
  have sp: "js_split [newline] (trim (generateCSV rows)) = ?ls"
    unfolding tr using js_split_join[of ?ls newline] no_nl by simp
  obtain r rs where rows: "rows = r # rs" using ne by (cases rows) auto
  then have shape: "?ls = ?H # csv_line ?ks r # map (csv_line ?ks) rs" by simp
  have heads: "csv_fields ?H = ?ks"
    unfolding H using csv_fields_join[OF ks_ne ks_plain] .
  have parsed: "parseCSVToJSON (Some (generateCSV rows)) =
           map (\<lambda>line.
                  fold (\<lambda>(index, header) row.
                          obj_set header (CStr (value_at (csv_fields line) index)) row)
                    (enumerate 0 ?ks) [])
             (map (csv_line ?ks) rows)"
    using parse_lines[OF shape sp] heads rows by simp
  have each: "map_of (fold (\<lambda>(index, header) row'.
                          obj_set header (CStr (value_at (csv_fields (csv_line ?ks row)) index)) row')
                    (enumerate 0 ?ks) []) = map_of row" if "row \<in> set rows" for row
  proof -
    have vs: "csv_fields (csv_line ?ks row) = ?vals row"
      unfolding line[OF that] using csv_fields_join[of "?vals row"] ks_ne vals_plain[OF that]
      by simp
    have "map_of (fold (\<lambda>(index, header) row'.
                  obj_set header (CStr (value_at (?vals row) index)) row')
            (enumerate 0 ?ks) []) = map_of (zip ?ks (map CStr (?vals row)))"
      using fold_obj_set[OF dist ks_proto, of 0 "?vals row" "[]"] by simp
    moreover from that uni plain have "distinct (map fst row)" "set (map fst row) = set ?ks"
      "plain_row row"
      by (auto simp: uniform_rows_def list_all_iff)
    ultimately show ?thesis
      unfolding vs using rebuilt_row[of row ?ks] by simp
  qed
  show ?thesis
    unfolding parsed by (simp add: each comp_def)
qed

theorem csv_round_trip_witness:
  "people \<noteq> [] \<and> uniform_rows people \<and> list_all plain_row people \<and>
   header_line people \<noteq> [] \<and> csv_line (all_columns people) (last people) \<noteq> [] \<and>
   generateCSV people =
     ''name,age'' @ [newline] @ ''Ada,36'' @ [newline] @ ''Alan Turing,41'' @ [newline] \<and>
   parseCSVToJSON (Some (generateCSV people)) =
     [[(''name'', CStr ''Ada''), (''age'', CStr ''36'')],
      [(''name'', CStr ''Alan Turing''), (''age'', CStr ''41'')]] \<and>
   map map_of (parseCSVToJSON (Some (generateCSV people))) = map map_of people"
proof -
  have 1: "people \<noteq> []" by (simp add: people_def)
  have 2: "uniform_rows people" by code_simp
  have 3: "list_all plain_row people" by code_simp
  have 4: "header_line people \<noteq> []" by code_simp
  have 5: "csv_line (all_columns people) (last people) \<noteq> []" by code_simp
  have 6: "generateCSV people =
     ''name,age'' @ [newline] @ ''Ada,36'' @ [newline] @ ''Alan Turing,41'' @ [newline]"
    by code_simp
  have 7: "parseCSVToJSON (Some (generateCSV people)) =
     [[(''name'', CStr ''Ada''), (''age'', CStr ''36'')],
      [(''name'', CStr ''Alan Turing''), (''age'', CStr ''41'')]]"
    by code_simp
  from csv_round_trip[OF 1 2 3 4 5] 1 2 3 4 5 6 7 show ?thesis by blast
qed

text \<open>
  The claim as stated fails on fields free of commas, quotes and newlines: a leading
  space, or a leading no-break space U+00A0, is trimmed away; rows with different keys
  come back with all columns; a single empty value is lost with its row; a column
  named \<open>__proto__\<close> is lost; and a \<open>null\<close> value comes back as the empty string.
\<close>

theorem csv_round_trip_counterexample:
  "parseCSVToJSON (Some (generateCSV [[(''a'', CStr '' x'')]])) = [[(''a'', CStr ''x'')]] \<and>
   map map_of (parseCSVToJSON (Some (generateCSV [[(''a'', CStr '' x'')]]))) \<noteq>
     map map_of [[(''a'', CStr '' x'')]] \<and>
   parseCSVToJSON (Some (generateCSV [[(''a'', CStr ([CHR 0xC2, CHR 0xA0] @ ''x''))]])) =
     [[(''a'', CStr ''x'')]] \<and>
   parseCSVToJSON (Some (generateCSV [[(''a'', CStr ''1'')], [(''b'', CStr ''2'')]])) =
     [[(''a'', CStr ''1''), (''b'', CStr [])], [(''a'', CStr []), (''b'', CStr ''2'')]] \<and>
   parseCSVToJSON (Some (generateCSV [[(''a'', CStr [])]])) = [] \<and>
   parseCSVToJSON (Some (generateCSV [[(''__proto__'', CStr ''x''), (''a'', CStr ''1'')]])) =
     [[(''a'', CStr ''1'')]] \<and>
   parseCSVToJSON (Some (generateCSV [[(''a'', CNull), (''b'', CStr ''1'')]])) =
     [[(''a'', CStr []), (''b'', CStr ''1'')]]"
proof -
  have 1: "parseCSVToJSON (Some (generateCSV [[(''a'', CStr '' x'')]])) = [[(''a'', CStr ''x'')]]"
    by code_simp
  have "map_of [(''a'', CStr ''x'')] ''a'' \<noteq> map_of [(''a'', CStr '' x'')] ''a''"
    by simp
  then have "map_of [(''a'', CStr ''x'')] \<noteq> map_of [(''a'', CStr '' x'')]"
    by metis
  then have 2: "map map_of (parseCSVToJSON (Some (generateCSV [[(''a'', CStr '' x'')]]))) \<noteq>
     map map_of [[(''a'', CStr '' x'')]]"
    unfolding 1 by simp
  have 3: "parseCSVToJSON (Some (generateCSV [[(''a'', CStr ''1'')], [(''b'', CStr ''2'')]])) =
     [[(''a'', CStr ''1''), (''b'', CStr [])], [(''a'', CStr []), (''b'', CStr ''2'')]]"
    by code_simp
  have 4: "parseCSVToJSON (Some (generateCSV [[(''a'', CStr [])]])) = []"
    by code_simp
  have 5: "parseCSVToJSON (Some (generateCSV [[(''a'', CStr ([CHR 0xC2, CHR 0xA0] @ ''x''))]])) =
     [[(''a'', CStr ''x'')]]"
    by code_simp
  have 6: "parseCSVToJSON (Some (generateCSV [[(''__proto__'', CStr ''x''), (''a'', CStr ''1'')]])) =
     [[(''a'', CStr ''1'')]]"
    by code_simp
  have 7: "parseCSVToJSON (Some (generateCSV [[(''a'', CNull), (''b'', CStr ''1'')]])) =
     [[(''a'', CStr []), (''b'', CStr ''1'')]]"
    by code_simp
  from 1 2 3 4 5 6 7 show ?thesis by blast
qed

end
